theory Spec2Isabelle
  imports Complex_Main "HOL-Library.Word"
begin

section \<open>Data model (types.ts)\<close>

record RGB =
  r :: real
  g :: real
  b :: real

record HSL =
  h :: real
  s :: real
  l :: real

record PaletteColor =
  rgb :: RGB
  hsl :: HSL
  hex :: string
  population :: int
  score :: int
  isVibrant :: bool
  isDark :: bool
  isLight :: bool

record Palette =
  dominant :: PaletteColor
  vibrant :: "PaletteColor option"
  muted :: "PaletteColor option"
  darkVibrant :: "PaletteColor option"
  lightVibrant :: "PaletteColor option"
  allColors :: "PaletteColor list"

text \<open>
  The exceptions the two functions can raise: \<open>RangeError\<close> from the construction of a
  typed array with a negative length, \<open>TypeError\<close> from reading a property of
  \<open>undefined\<close>.
\<close>

datatype error = RangeError | TypeError

section \<open>Numbers\<close>

text \<open>
  A JavaScript \<open>number\<close> is an IEEE 754 binary64 value. It is modelled as the real it
  denotes, and every arithmetic operation of the code as the exact operation followed by
  the rounding \<open>fl\<close>: to the nearest binary64 number, ties to the even significand,
  subnormal numbers included. \<open>binade x\<close> is the exponent of the power of two at or below
  \<open>\<bar>x\<bar>\<close>, not below \<open>- 1022\<close>; the numbers of that binade are the multiples of
  \<open>2 ^ (binade x - 52)\<close>. A decimal literal of the code is the rounding of its value.
  Integers below \<open>2 ^ 53\<close> in magnitude (bytes, counts, populations) are binary64 numbers.
  \<open>Infinity\<close> and \<open>NaN\<close> have no counterpart: the values computed here stay far below
  \<open>2 ^ 1024\<close>, where \<open>fl\<close> is the rounding of the machine.
\<close>

definition pow2 :: "int \<Rightarrow> real" where
  "pow2 e = (if 0 \<le> e then 2 ^ nat e else 1 / 2 ^ nat (- e))"

definition roundEven :: "real \<Rightarrow> int" where
  "roundEven y =
    (let f = \<lfloor>y\<rfloor>; d = y - real_of_int f
     in if d < 1 / 2 then f else if 1 / 2 < d then f + 1 else if even f then f else f + 1)"

definition binade :: "real \<Rightarrow> int" where
  "binade x = max \<lfloor>log 2 \<bar>x\<bar>\<rfloor> (- 1022)"

definition fl :: "real \<Rightarrow> real" where
  "fl x = (if x = 0 then 0
           else real_of_int (roundEven (x / pow2 (binade x - 52))) * pow2 (binade x - 52))"

text \<open>The binary64 numbers are the reals that the rounding does not change.\<close>

definition isDouble :: "real \<Rightarrow> bool" where
  "isDouble x \<longleftrightarrow> fl x = x"

section \<open>Colour conversions (colorUtils.ts)\<close>

text \<open>\<open>Math.round\<close>: the nearest integer, halves going up; it is exact.\<close>

definition Math_round :: "real \<Rightarrow> int" where
  "Math_round x = \<lfloor>x + 1 / 2\<rfloor>"

definition hexDigit :: "nat \<Rightarrow> char" where
  "hexDigit n = ''0123456789abcdef'' ! n"

text \<open>\<open>Number.prototype.toString(16)\<close> on an integer: no padding, a sign for negatives.\<close>

function toString16 :: "nat \<Rightarrow> string" where
  "toString16 n = (if n < 16 then [hexDigit n] else toString16 (n div 16) @ [hexDigit (n mod 16)])"
  by pat_completeness auto
termination
  by (relation "measure (\<lambda>n. n)") auto

declare toString16.simps [simp del]

definition intToString16 :: "int \<Rightarrow> string" where
  "intToString16 i = (if i < 0 then CHR ''-'' # toString16 (nat (- i)) else toString16 (nat i))"

definition toHex :: "real \<Rightarrow> string" where
  "toHex n = (let hx = intToString16 (Math_round n) in if length hx = 1 then CHR ''0'' # hx else hx)"

definition rgbToHex :: "RGB \<Rightarrow> string" where
  "rgbToHex c = CHR ''#'' # toHex (r c) @ toHex (g c) @ toHex (b c)"

text \<open>
  \<open>rgbToHsl\<close>, one rounding for each operation of the code. The \<open>switch (max)\<close> tries
  \<open>case r\<close>, \<open>case g\<close>, \<open>case b\<close> in this order and leaves \<open>h = 0\<close> when none matches;
  \<open>2 - max - min\<close> is \<open>(2 - max) - min\<close>; the literal \<open>0.5\<close> is exact.
\<close>

definition rgbToHsl :: "RGB \<Rightarrow> HSL" where
  "rgbToHsl c =
    (let r' = fl (r c / 255); g' = fl (g c / 255); b' = fl (b c / 255);
         mx = max r' (max g' b');
         mn = min r' (min g' b');
         l' = fl (fl (mx + mn) / 2)
     in if mx \<noteq> mn then
          (let d = fl (mx - mn);
               s' = (if l' > 1 / 2 then fl (d / fl (fl (2 - mx) - mn)) else fl (d / fl (mx + mn)));
               h' = (if mx = r' then fl (fl (fl (g' - b') / d) + (if g' < b' then 6 else 0))
                     else if mx = g' then fl (fl (fl (b' - r') / d) + 2)
                     else if mx = b' then fl (fl (fl (r' - g') / d) + 4)
                     else 0)
           in \<lparr>h = fl (fl (h' / 6) * 360), s = s', l = l'\<rparr>)
        else \<lparr>h = fl (0 * 360), s = 0, l = l'\<rparr>)"

text \<open>
  \<open>x ** 2\<close> is the rounded product \<open>x * x\<close>: what the engine's \<open>pow\<close> returns whenever the
  square is a binary64 number, as for a difference of bytes. The proofs below use of it
  only that the square of 0 is 0.
\<close>

definition square :: "real \<Rightarrow> real" where
  "square x = fl (x * x)"

definition colorDistanceSq :: "RGB \<Rightarrow> RGB \<Rightarrow> real" where
  "colorDistanceSq c1 c2 =
    fl (fl (square (fl (r c1 - r c2)) + square (fl (g c1 - g c2))) + square (fl (b c1 - b c2)))"

section \<open>Typed arrays\<close>

text \<open>
  The pixel buffer is a \<open>Uint8Array\<close>: a list of bytes. \<open>byteAt\<close> is a read at an index
  inside the buffer; the model uses it only there.
\<close>

type_synonym byte = "8 word"

definition byteAt :: "byte list \<Rightarrow> nat \<Rightarrow> real" where
  "byteAt pixels i = real (unat (pixels ! i))"

text \<open>
  \<open>clusterCounts\<close> is an \<open>Int32Array\<close>: a stored value wraps into the signed 32-bit range.
  \<open>clusterSums\<close> is a \<open>Float64Array\<close>: it stores the rounded sum as it is. A write to a
  typed array at an index outside of it is ignored.
\<close>

definition wrapInt32 :: "int \<Rightarrow> int" where
  "wrapInt32 x = (x + 2 ^ 31) mod 2 ^ 32 - 2 ^ 31"

definition taAdd :: "real list \<Rightarrow> nat \<Rightarrow> real \<Rightarrow> real list" where
  "taAdd xs i v = (if i < length xs then xs[i := fl (xs ! i + v)] else xs)"

definition taIncr :: "int list \<Rightarrow> nat \<Rightarrow> int list" where
  "taIncr xs i = (if i < length xs then xs[i := wrapInt32 (xs ! i + 1)] else xs)"

section \<open>quantizeColors (colorUtils.ts)\<close>

text \<open>
  \<open>pixels.length / 4\<close>; the buffer holds whole RGBA pixels, so its length is a multiple
  of 4 and the quotient is the integer one. The array \<open>assignments\<close> is written and never
  read; it is left out.
\<close>

definition pixelCount :: "byte list \<Rightarrow> nat" where
  "pixelCount pixels = length pixels div 4"

text \<open>
  A starting centroid is read at \<open>idx\<close>, \<open>idx + 1\<close>, \<open>idx + 2\<close>. A read outside the buffer
  gives \<open>undefined\<close>; that happens for the empty buffer, where \<open>idx = 0\<close>. \<open>None\<close> is the
  centroid whose channels are \<open>undefined\<close>: every distance to it is \<open>NaN\<close>.
\<close>

definition sampleCentroid :: "byte list \<Rightarrow> int \<Rightarrow> RGB option" where
  "sampleCentroid pixels idx =
    (if 0 \<le> idx \<and> nat idx + 2 < length pixels
     then Some \<lparr>r = byteAt pixels (nat idx), g = byteAt pixels (nat idx + 1), b = byteAt pixels (nat idx + 2)\<rparr>
     else None)"

text \<open>
  \<open>Math.random\<close> is a parameter: \<open>rnd i\<close> is the value of its call number \<open>i\<close>, a binary64
  number in \<open>[0, 1)\<close>.
\<close>

definition initCentroids :: "(nat \<Rightarrow> real) \<Rightarrow> byte list \<Rightarrow> nat \<Rightarrow> RGB option list" where
  "initCentroids rnd pixels k =
    map (\<lambda>i. sampleCentroid pixels (\<lfloor>fl (rnd i * real (pixelCount pixels))\<rfloor> * 4)) [0..<k]"

text \<open>
  The scan for the nearest centroid. \<open>minDist\<close> is \<open>None\<close> while it is \<open>Infinity\<close>;
  \<open>dist < minDist\<close> is false for a \<open>NaN\<close> distance.
\<close>

definition nearestStep :: "RGB \<Rightarrow> RGB option list \<Rightarrow> nat \<Rightarrow> real option \<times> nat \<Rightarrow> real option \<times> nat" where
  "nearestStep p centroids c st =
    (case centroids ! c of
       None \<Rightarrow> st
     | Some cc \<Rightarrow>
         (let dist = colorDistanceSq p cc
          in if (case fst st of None \<Rightarrow> True | Some minDist \<Rightarrow> dist < minDist)
             then (Some dist, c) else st))"

definition nearest :: "RGB \<Rightarrow> RGB option list \<Rightarrow> nat \<Rightarrow> nat" where
  "nearest p centroids k = snd (fold (nearestStep p centroids) [0..<k] (None, 0))"

text \<open>The body of the E-step for pixel \<open>i\<close>, on \<open>(clusterSums, clusterCounts)\<close>.\<close>

definition assignPixel :: "byte list \<Rightarrow> nat \<Rightarrow> RGB option list \<Rightarrow> nat \<Rightarrow> real list \<times> int list \<Rightarrow> real list \<times> int list" where
  "assignPixel pixels k centroids i acc =
    (let idx = i * 4
     in if pixels ! (idx + 3) < 128 then acc
        else
          (let p = \<lparr>r = byteAt pixels idx, g = byteAt pixels (idx + 1), b = byteAt pixels (idx + 2)\<rparr>;
               clusterIndex = nearest p centroids k;
               sums1 = taAdd (fst acc) (clusterIndex * 3) (r p);
               sums2 = taAdd sums1 (clusterIndex * 3 + 1) (g p);
               sums3 = taAdd sums2 (clusterIndex * 3 + 2) (b p)
           in (sums3, taIncr (snd acc) clusterIndex)))"

definition eStep :: "byte list \<Rightarrow> nat \<Rightarrow> RGB option list \<Rightarrow> real list \<times> int list" where
  "eStep pixels k centroids =
    fold (assignPixel pixels k centroids) [0..<pixelCount pixels] (replicate (k * 3) 0, replicate k 0)"

definition updateCentroid :: "real list \<Rightarrow> int list \<Rightarrow> nat \<Rightarrow> RGB option list \<Rightarrow> RGB option list" where
  "updateCentroid clusterSums clusterCounts c centroids =
    (if clusterCounts ! c > 0
     then centroids[c := Some \<lparr>r = fl (clusterSums ! (c * 3) / real_of_int (clusterCounts ! c)),
                               g = fl (clusterSums ! (c * 3 + 1) / real_of_int (clusterCounts ! c)),
                               b = fl (clusterSums ! (c * 3 + 2) / real_of_int (clusterCounts ! c))\<rparr>]
     else centroids)"

definition mStep :: "nat \<Rightarrow> real list \<Rightarrow> int list \<Rightarrow> RGB option list \<Rightarrow> RGB option list" where
  "mStep k clusterSums clusterCounts centroids =
    fold (updateCentroid clusterSums clusterCounts) [0..<k] centroids"

text \<open>One pass of the outer loop, on \<open>(centroids, clusterSums, clusterCounts)\<close>.\<close>

definition iteration :: "byte list \<Rightarrow> nat \<Rightarrow> RGB option list \<times> real list \<times> int list \<Rightarrow> RGB option list \<times> real list \<times> int list" where
  "iteration pixels k st =
    (let acc = eStep pixels k (fst st)
     in (mStep k (fst acc) (snd acc) (fst st), fst acc, snd acc))"

definition maxIterations :: nat where
  "maxIterations = 5"

definition kMeans :: "(nat \<Rightarrow> real) \<Rightarrow> byte list \<Rightarrow> nat \<Rightarrow> RGB option list \<times> real list \<times> int list" where
  "kMeans rnd pixels k =
    (iteration pixels k ^^ maxIterations) (initCentroids rnd pixels k, replicate (k * 3) 0, replicate k 0)"

text \<open>
  The flags compare with the literals \<open>0.5\<close> (exact), \<open>0.3\<close>, \<open>0.8\<close>, \<open>0.4\<close> and \<open>0.7\<close>.
\<close>

definition makeColor :: "RGB \<Rightarrow> int \<Rightarrow> PaletteColor" where
  "makeColor c count =
    (let hsl' = rgbToHsl c
     in \<lparr>rgb = \<lparr>r = real_of_int (Math_round (r c)), g = real_of_int (Math_round (g c)),
                b = real_of_int (Math_round (b c))\<rparr>,
         hsl = hsl',
         hex = rgbToHex c,
         population = count,
         score = count,
         isVibrant = (s hsl' > 1 / 2 \<and> l hsl' > fl (3 / 10) \<and> l hsl' < fl (8 / 10)),
         isDark = (l hsl' < fl (4 / 10)),
         isLight = (l hsl' > fl (7 / 10))\<rparr>)"

text \<open>
  The callback of \<open>centroids.map\<close>; \<open>None\<close> is its \<open>null\<close>. A centroid that still has
  \<open>undefined\<close> channels has not been updated by the last M-step; in a buffer of fewer than
  \<open>2 ^ 31\<close> pixels its count is then 0 and it is dropped by the first test: the last case
  is not reached (\<open>toPaletteColor_defined\<close> below), and the colour with \<open>NaN\<close> channels that
  the code would build there has no counterpart here.
\<close>

definition toPaletteColor :: "RGB option list \<Rightarrow> int list \<Rightarrow> nat \<Rightarrow> PaletteColor option" where
  "toPaletteColor centroids clusterCounts i =
    (let count = clusterCounts ! i
     in if count = 0 then None
        else (case centroids ! i of Some c \<Rightarrow> Some (makeColor c count) | None \<Rightarrow> None))"

definition materialize :: "RGB option list \<Rightarrow> int list \<Rightarrow> PaletteColor list" where
  "materialize centroids clusterCounts =
    List.map_filter (toPaletteColor centroids clusterCounts) [0..<length centroids]"

text \<open>
  \<open>Array.prototype.sort\<close> with the comparator \<open>b.population - a.population\<close>: a stable
  sort (ECMAScript 2019) by descending population.
\<close>

definition sortByPopulation :: "PaletteColor list \<Rightarrow> PaletteColor list" where
  "sortByPopulation cs = sort_key (\<lambda>c. - population c) cs"

text \<open>
  \<open>new Float64Array(k * 3)\<close> raises a \<open>RangeError\<close> for a negative length; the loop that
  samples the centroids has run no step then.
\<close>

definition quantizeColors :: "(nat \<Rightarrow> real) \<Rightarrow> byte list \<Rightarrow> int \<Rightarrow> error + PaletteColor list" where
  "quantizeColors rnd pixels k =
    (if k < 0 then Inl RangeError
     else (let st = kMeans rnd pixels (nat k)
           in Inr (sortByPopulation (materialize (fst st) (snd (snd st))))))"

section \<open>Role selection (SkiaService.processImage, step 6)\<close>

text \<open>The variables the \<open>forEach\<close> callback updates.\<close>

record Roles =
  bestVibrant :: "PaletteColor option"
  maxVibrantScore :: real
  curDarkVibrant :: "PaletteColor option"
  curLightVibrant :: "PaletteColor option"
  curMuted :: "PaletteColor option"

definition initRoles :: Roles where
  "initRoles = \<lparr>bestVibrant = None, maxVibrantScore = - 1, curDarkVibrant = None,
                curLightVibrant = None, curMuted = None\<rparr>"

text \<open>\<open>c.population / (dominant.population || 1)\<close>.\<close>

definition popRatio :: "PaletteColor \<Rightarrow> PaletteColor \<Rightarrow> real" where
  "popRatio dmn c =
    fl (real_of_int (population c) / real_of_int (if population dmn = 0 then 1 else population dmn))"

text \<open>\<open>sat * (1 + popRatio * 0.5)\<close>, rounded after the product, the sum and the product.\<close>

definition vibrantScore :: "PaletteColor \<Rightarrow> PaletteColor \<Rightarrow> real" where
  "vibrantScore dmn c = fl (s (hsl c) * fl (1 + fl (popRatio dmn c * (1 / 2))))"

definition vibrantEligible :: "PaletteColor \<Rightarrow> bool" where
  "vibrantEligible c = (s (hsl c) > fl (3 / 10) \<and> l (hsl c) > fl (3 / 10) \<and> l (hsl c) < fl (8 / 10))"

definition morePopulated :: "PaletteColor option \<Rightarrow> PaletteColor \<Rightarrow> bool" where
  "morePopulated cur c = (case cur of None \<Rightarrow> True | Some x \<Rightarrow> population c > population x)"

definition roleStep :: "PaletteColor \<Rightarrow> PaletteColor \<Rightarrow> Roles \<Rightarrow> Roles" where
  "roleStep dmn c st =
    (let sat = s (hsl c);
         lum = l (hsl c);
         st1 = (if vibrantEligible c \<and> vibrantScore dmn c > maxVibrantScore st
                then st\<lparr>maxVibrantScore := vibrantScore dmn c, bestVibrant := Some c\<rparr> else st);
         st2 = (if lum < fl (4 / 10) \<and> sat > fl (2 / 10) \<and> morePopulated (curDarkVibrant st1) c
                then st1\<lparr>curDarkVibrant := Some c\<rparr> else st1);
         st3 = (if lum > fl (7 / 10) \<and> sat > fl (2 / 10) \<and> morePopulated (curLightVibrant st2) c
                then st2\<lparr>curLightVibrant := Some c\<rparr> else st2)
     in if sat < fl (3 / 10) \<and> lum > fl (2 / 10) \<and> lum < fl (8 / 10) \<and> morePopulated (curMuted st3) c
        then st3\<lparr>curMuted := Some c\<rparr> else st3)"

text \<open>
  \<open>dominant = colors[0]\<close>. For an empty list the \<open>forEach\<close> has no step, \<open>bestVibrant\<close> is
  still \<open>null\<close> and the fallback reads \<open>dominant.isVibrant\<close> of \<open>undefined\<close>: a
  \<open>TypeError\<close>. \<open>colors[1] || dominant\<close> is the second colour when there is one.
\<close>

definition classify :: "PaletteColor list \<Rightarrow> error + Palette" where
  "classify colors =
    (case colors of
       [] \<Rightarrow> Inl TypeError
     | dmn # rest \<Rightarrow>
         (let st = fold (roleStep dmn) colors initRoles;
              best = (case bestVibrant st of
                        Some v \<Rightarrow> v
                      | None \<Rightarrow> (if isVibrant dmn then dmn
                                 else (case rest of [] \<Rightarrow> dmn | second # _ \<Rightarrow> second)))
          in Inr \<lparr>dominant = dmn, vibrant = Some best, muted = curMuted st,
                  darkVibrant = curDarkVibrant st, lightVibrant = curLightVibrant st,
                  allColors = colors\<rparr>))"

section \<open>Notions used in the statements\<close>

text \<open>A random source that always returns 0: every centroid starts at the first pixel.\<close>

definition firstPixelRnd :: "nat \<Rightarrow> real" where
  "firstPixelRnd i = 0"

text \<open>The number of pixels of the buffer with an alpha of at least 128.\<close>

definition opaquePixels :: "byte list \<Rightarrow> nat" where
  "opaquePixels pixels = length (filter (\<lambda>i. 128 \<le> pixels ! (i * 4 + 3)) [0..<length pixels div 4])"

text \<open>The same count over the first \<open>n\<close> pixels.\<close>

definition opaqueUpTo :: "byte list \<Rightarrow> nat \<Rightarrow> nat" where
  "opaqueUpTo pixels n = length (filter (\<lambda>i. 128 \<le> pixels ! (i * 4 + 3)) [0..<n])"

text \<open>
  The invariant of the E-step after \<open>i\<close> pixels, for a buffer whose pixel count fits the
  32-bit counters: the counts are not negative and add up to the opaque pixels seen.
\<close>

definition countsInv :: "byte list \<Rightarrow> nat \<Rightarrow> nat \<Rightarrow> real list \<times> int list \<Rightarrow> bool" where
  "countsInv pixels k i acc \<longleftrightarrow>
     length (snd acc) = k \<and> (\<forall>x \<in> set (snd acc). 0 \<le> x) \<and>
     sum_list (snd acc) = (if k = 0 then 0 else int (opaqueUpTo pixels i))"

text \<open>A buffer of \<open>n\<close> pixels that all have the same four bytes.\<close>

definition solid :: "nat \<Rightarrow> byte \<Rightarrow> byte \<Rightarrow> byte \<Rightarrow> byte \<Rightarrow> byte list" where
  "solid n cr cg cb ca = concat (replicate n [cr, cg, cb, ca])"

text \<open>The colour of such a pixel: its first three bytes as numbers.\<close>

definition solidColor :: "byte \<Rightarrow> byte \<Rightarrow> byte \<Rightarrow> RGB" where
  "solidColor cr cg cb = \<lparr>r = real (unat cr), g = real (unat cg), b = real (unat cb)\<rparr>"

text \<open>
  The hex encoding of a colour as the data model has it: \<open>#\<close>, then two lowercase
  hexadecimal digits for each of red, green and blue.
\<close>

definition hexPair :: "byte \<Rightarrow> string" where
  "hexPair w = [''0123456789abcdef'' ! (unat w div 16), ''0123456789abcdef'' ! (unat w mod 16)]"

definition hexEncoding :: "byte \<Rightarrow> byte \<Rightarrow> byte \<Rightarrow> string" where
  "hexEncoding cr cg cb = CHR ''#'' # hexPair cr @ hexPair cg @ hexPair cb"

text \<open>
  A channel normalized to \<open>[0, 1]\<close>, the maximum and the minimum of the three, and their
  rounded difference, as \<open>rgbToHsl\<close> computes them.
\<close>

definition norm255 :: "real \<Rightarrow> real" where
  "norm255 x = fl (x / 255)"

definition normMax :: "RGB \<Rightarrow> real" where
  "normMax c = max (norm255 (r c)) (max (norm255 (g c)) (norm255 (b c)))"

definition normMin :: "RGB \<Rightarrow> real" where
  "normMin c = min (norm255 (r c)) (min (norm255 (g c)) (norm255 (b c)))"

definition chroma :: "RGB \<Rightarrow> real" where
  "chroma c = fl (normMax c - normMin c)"

text \<open>A sample colour, and a red with a trace of blue.\<close>

definition orange :: RGB where
  "orange = \<lparr>r = 255, g = 128, b = 0\<rparr>"

definition nearlyRed :: RGB where
  "nearlyRed = \<lparr>r = 255, g = 0, b = 1 / 2 ^ 60\<rparr>"

text \<open>
  Centroids that are all undefined or the colour \<open>c\<close>, and what holds of the index \<open>j\<close>
  that the scan for the nearest of them to \<open>c\<close> returns: the first defined one, or 0
  when none is defined.
\<close>

definition centsInv :: "RGB \<Rightarrow> RGB option list \<Rightarrow> bool" where
  "centsInv c cents \<longleftrightarrow> (\<forall>x \<in> set cents. x = None \<or> x = Some c)"

definition nearestChar :: "RGB \<Rightarrow> RGB option list \<Rightarrow> nat \<Rightarrow> bool" where
  "nearestChar c cents j \<longleftrightarrow>
     (\<forall>i < j. cents ! i = None) \<and>
     (cents ! j = Some c \<or> (j = 0 \<and> (\<forall>i < length cents. cents ! i = None)))"

text \<open>
  The accumulators of the E-step after \<open>i\<close> pixels of one colour \<open>c\<close>, all assigned to
  cluster \<open>j\<close>.
\<close>

definition solidAcc :: "nat \<Rightarrow> RGB \<Rightarrow> nat \<Rightarrow> nat \<Rightarrow> real list \<times> int list \<Rightarrow> bool" where
  "solidAcc k c j i acc \<longleftrightarrow>
     length (fst acc) = k * 3 \<and> length (snd acc) = k \<and>
     fst acc ! (j * 3) = real i * r c \<and> fst acc ! (j * 3 + 1) = real i * g c \<and>
     fst acc ! (j * 3 + 2) = real i * b c \<and>
     snd acc ! j = wrapInt32 (int i) \<and> (\<forall>j'. j' < k \<and> j' \<noteq> j \<longrightarrow> snd acc ! j' = 0)"

text \<open>Centroids of that kind, \<open>k\<close> of them, for which the scan returns \<open>j\<close>.\<close>

definition solidCents :: "RGB \<Rightarrow> nat \<Rightarrow> nat \<Rightarrow> RGB option list \<Rightarrow> bool" where
  "solidCents c k j cents \<longleftrightarrow> length cents = k \<and> centsInv c cents \<and> nearest c cents k = j"








text \<open>
  The sums of the E-step against the counts: each channel sum of a cluster is between 0
  and 255 times the count of the cluster.
\<close>

definition sumsInv :: "nat \<Rightarrow> real list \<times> int list \<Rightarrow> bool" where
  "sumsInv k acc \<longleftrightarrow>
     length (fst acc) = k * 3 \<and>
     (\<forall>j < k. \<forall>ch < 3. 0 \<le> fst acc ! (j * 3 + ch)
        \<and> fst acc ! (j * 3 + ch) \<le> 255 * real_of_int (snd acc ! j))"
section \<open>Rounding to binary64\<close>

lemma pow2_powr: "pow2 e = 2 powr real_of_int e"
  by (simp add: pow2_def powr_int)

lemma pow2_pos: "0 < pow2 e"
  by (simp add: pow2_powr)

lemma pow2_add: "pow2 (a + bd) = pow2 a * pow2 bd"
  by (simp add: pow2_powr powr_add)

lemma pow2_le: "a \<le> bd \<Longrightarrow> pow2 a \<le> pow2 bd"
  by (simp add: pow2_powr)

lemma pow2_less: "a < bd \<Longrightarrow> pow2 a < pow2 bd"
  by (simp add: pow2_powr)

lemma pow2_53: "pow2 (e + 1) = real_of_int (2 ^ 53) * pow2 (e - 52)"
proof -
  have a: "(2::real) powr (53 + real_of_int (e - 52)) = 2 powr 53 * 2 powr real_of_int (e - 52)"
    by (rule powr_add)
  have bd: "real_of_int (e + 1) = 53 + real_of_int (e - 52)" by simp
  show ?thesis unfolding pow2_powr bd a by simp
qed

lemma pow2_52: "pow2 e = real_of_int (2 ^ 52) * pow2 (e - 52)"
proof -
  have a: "(2::real) powr (52 + real_of_int (e - 52)) = 2 powr 52 * 2 powr real_of_int (e - 52)"
    by (rule powr_add)
  have bd: "real_of_int e = 52 + real_of_int (e - 52)" by simp
  have "(2::real) powr real_of_int e = 2 powr 52 * 2 powr real_of_int (e - 52)"
    by (subst bd) (rule a)
  then show ?thesis unfolding pow2_powr by simp
qed

lemma pow2_nat: "0 \<le> e \<Longrightarrow> pow2 e = real_of_int (2 ^ nat e)"
  by (simp add: pow2_def)

lemma roundEven_int: "roundEven (real_of_int n) = n"
  by (simp add: roundEven_def)

lemma roundEven_bounds: "\<lfloor>y\<rfloor> \<le> roundEven y \<and> roundEven y \<le> \<lfloor>y\<rfloor> + 1"
  by (simp add: roundEven_def Let_def)

lemma roundEven_floor_eq:
  assumes "\<lfloor>x\<rfloor> = \<lfloor>y\<rfloor>" "x \<le> y"
  shows "roundEven x \<le> roundEven y"
  using assms by (auto simp: roundEven_def Let_def)

lemma roundEven_mono:
  assumes "x \<le> y"
  shows "roundEven x \<le> roundEven y"
proof (cases "\<lfloor>x\<rfloor> = \<lfloor>y\<rfloor>")
  case True
  then show ?thesis using assms by (rule roundEven_floor_eq)
next
  case False
  then have "\<lfloor>x\<rfloor> < \<lfloor>y\<rfloor>" using floor_mono[OF assms] by simp
  then have "\<lfloor>x\<rfloor> + 1 \<le> \<lfloor>y\<rfloor>" by simp
  then show ?thesis using roundEven_bounds[of x] roundEven_bounds[of y] by linarith
qed

lemma roundEven_neg: "roundEven (- y) = - roundEven y"
proof (cases "y = real_of_int \<lfloor>y\<rfloor>")
  case True
  then have "roundEven (- y) = roundEven (real_of_int (- \<lfloor>y\<rfloor>))" by simp
  then have 1: "roundEven (- y) = - \<lfloor>y\<rfloor>" by (simp only: roundEven_int)
  have 2: "roundEven y = \<lfloor>y\<rfloor>" using True roundEven_int[of "\<lfloor>y\<rfloor>"] by simp
  show ?thesis using 1 2 by simp
next
  case False
  then have lt: "real_of_int \<lfloor>y\<rfloor> < y" using of_int_floor_le[of y] by linarith
  have fn: "\<lfloor>- y\<rfloor> = - \<lfloor>y\<rfloor> - 1"
    by (rule floor_unique) (use lt in \<open>simp_all\<close>, linarith)
  show ?thesis
    unfolding roundEven_def Let_def fn using lt by (auto simp: algebra_simps)
qed


lemma binade_neg: "binade (- x) = binade x"
  by (simp add: binade_def)

lemma binade_ge: "- 1022 \<le> binade x"
  by (simp add: binade_def)

lemma binade_upper: "x \<noteq> 0 \<Longrightarrow> \<bar>x\<bar> < pow2 (binade x + 1)"
proof -
  assume "x \<noteq> 0"
  then have pos: "0 < \<bar>x\<bar>" by simp
  have "log 2 \<bar>x\<bar> < real_of_int (\<lfloor>log 2 \<bar>x\<bar>\<rfloor> + 1)" by linarith
  also have "\<dots> \<le> real_of_int (binade x + 1)" by (simp add: binade_def)
  finally have "log 2 \<bar>x\<bar> < real_of_int (binade x + 1)" .
  then show ?thesis using pos by (simp add: pow2_powr log_less_iff)
qed

lemma binade_lower: "x \<noteq> 0 \<Longrightarrow> - 1022 < binade x \<Longrightarrow> pow2 (binade x) \<le> \<bar>x\<bar>"
proof -
  assume "x \<noteq> 0" and bd: "- 1022 < binade x"
  then have pos: "0 < \<bar>x\<bar>" by simp
  have "binade x = \<lfloor>log 2 \<bar>x\<bar>\<rfloor>" using bd by (simp add: binade_def max_def split: if_splits)
  then have "real_of_int (binade x) \<le> log 2 \<bar>x\<bar>" by simp
  then show ?thesis using pos by (simp add: pow2_powr le_log_iff)
qed

lemma binade_eq:
  assumes "pow2 e \<le> \<bar>x\<bar>" "\<bar>x\<bar> < pow2 (e + 1)" "- 1022 \<le> e"
  shows "binade x = e"
proof -
  have pos: "0 < \<bar>x\<bar>" using assms(1) pow2_pos[of e] by linarith
  have "\<lfloor>log 2 \<bar>x\<bar>\<rfloor> = e"
    using assms(1,2) pos by (simp add: floor_log_eq_powr_iff pow2_powr add.commute)
  then show ?thesis using assms(3) by (simp add: binade_def)
qed

lemma binade_subnormal:
  assumes "x \<noteq> 0" "\<bar>x\<bar> < pow2 (- 1022)"
  shows "binade x = - 1022"
proof -
  have pos: "0 < \<bar>x\<bar>" using assms(1) by simp
  have "log 2 \<bar>x\<bar> < real_of_int (- 1022)"
    using assms(2) pos by (simp add: pow2_powr log_less_iff)
  then have "\<lfloor>log 2 \<bar>x\<bar>\<rfloor> < - 1022" by (simp add: floor_less_iff)
  then show ?thesis by (simp add: binade_def)
qed

lemma binade_mono:
  assumes "0 < x" "x \<le> y"
  shows "binade x \<le> binade y"
proof -
  have "log 2 \<bar>x\<bar> \<le> log 2 \<bar>y\<bar>" using assms by simp
  then have "\<lfloor>log 2 \<bar>x\<bar>\<rfloor> \<le> \<lfloor>log 2 \<bar>y\<bar>\<rfloor>" by (rule floor_mono)
  then show ?thesis by (simp add: binade_def)
qed

lemma fl_0: "fl 0 = 0"
  by (simp add: fl_def)

lemma fl_neg: "fl (- x) = - fl x"
  by (simp add: fl_def binade_neg roundEven_neg)

lemma fl_nonneg: "0 \<le> x \<Longrightarrow> 0 \<le> fl x"
proof -
  assume "0 \<le> x"
  then have "0 \<le> x / pow2 (binade x - 52)" using pow2_pos[of "binade x - 52"] by simp
  then have "roundEven 0 \<le> roundEven (x / pow2 (binade x - 52))" by (rule roundEven_mono)
  then have "0 \<le> roundEven (x / pow2 (binade x - 52))" using roundEven_int[of 0] by simp
  then show ?thesis using pow2_pos[of "binade x - 52"] by (simp add: fl_def)
qed

lemma fl_nonpos: "x \<le> 0 \<Longrightarrow> fl x \<le> 0"
  using fl_nonneg[of "- x"] by (simp add: fl_neg)

text \<open>A positive number rounds into the closure of its binade.\<close>

lemma fl_upper:
  assumes "0 < x"
  shows "fl x \<le> pow2 (binade x + 1)"
proof -
  let ?u = "pow2 (binade x - 52)"
  have u: "0 < ?u" by (rule pow2_pos)
  have "x < pow2 (binade x + 1)" using binade_upper[of x] assms by simp
  also have "pow2 (binade x + 1) = real_of_int (2 ^ 53) * ?u"
    by (rule pow2_53)
  finally have "x / ?u \<le> real_of_int (2 ^ 53)" using u by (simp add: field_simps)
  then have "roundEven (x / ?u) \<le> roundEven (real_of_int (2 ^ 53))" by (rule roundEven_mono)
  then have "roundEven (x / ?u) \<le> 2 ^ 53" by (simp only: roundEven_int)
  then have "real_of_int (roundEven (x / ?u)) \<le> real_of_int (2 ^ 53)" by (simp only: of_int_le_iff)
  then have "real_of_int (roundEven (x / ?u)) * ?u \<le> real_of_int (2 ^ 53) * ?u"
    using u by (simp only: mult_le_cancel_right_pos)
  moreover have "pow2 (binade x + 1) = real_of_int (2 ^ 53) * ?u"
    by (rule pow2_53)
  ultimately show ?thesis using assms by (simp add: fl_def)
qed

lemma fl_lower:
  assumes "0 < x" "- 1022 < binade x"
  shows "pow2 (binade x) \<le> fl x"
proof -
  let ?u = "pow2 (binade x - 52)"
  have u: "0 < ?u" by (rule pow2_pos)
  have eq: "pow2 (binade x) = real_of_int (2 ^ 52) * ?u"
    by (rule pow2_52)
  have "pow2 (binade x) \<le> x" using binade_lower[of x] assms by simp
  then have "real_of_int (2 ^ 52) \<le> x / ?u" unfolding eq using u by (simp add: field_simps)
  then have "roundEven (real_of_int (2 ^ 52)) \<le> roundEven (x / ?u)" by (rule roundEven_mono)
  then have "2 ^ 52 \<le> roundEven (x / ?u)" by (simp only: roundEven_int)
  then have "real_of_int (2 ^ 52) \<le> real_of_int (roundEven (x / ?u))" by (simp only: of_int_le_iff)
  then have "real_of_int (2 ^ 52) * ?u \<le> real_of_int (roundEven (x / ?u)) * ?u"
    using u by (simp only: mult_le_cancel_right_pos)
  then show ?thesis unfolding eq using assms by (simp add: fl_def)
qed

lemma fl_mono_pos:
  assumes "0 < x" "x \<le> y"
  shows "fl x \<le> fl y"
proof (cases "binade x = binade y")
  case True
  let ?u = "pow2 (binade y - 52)"
  have u: "0 < ?u" by (rule pow2_pos)
  have "x / ?u \<le> y / ?u" using assms(2) u by (simp add: divide_right_mono)
  then have "roundEven (x / ?u) \<le> roundEven (y / ?u)" by (rule roundEven_mono)
  then have "real_of_int (roundEven (x / ?u)) * ?u \<le> real_of_int (roundEven (y / ?u)) * ?u"
    using u by simp
  then show ?thesis using assms True by (simp add: fl_def)
next
  case False
  then have lt: "binade x < binade y" using binade_mono[OF assms] by simp
  then have "- 1022 < binade y" using binade_ge[of x] by linarith
  then have "pow2 (binade y) \<le> fl y" using assms by (intro fl_lower) simp_all
  moreover have "pow2 (binade x + 1) \<le> pow2 (binade y)" using lt by (intro pow2_le) simp
  moreover have "fl x \<le> pow2 (binade x + 1)" using assms(1) by (rule fl_upper)
  ultimately show ?thesis by linarith
qed

lemma fl_mono:
  assumes "x \<le> y"
  shows "fl x \<le> fl y"
proof -
  consider "0 < x" | "x \<le> 0" "0 \<le> y" | "y < 0" by linarith
  then show ?thesis
  proof cases
    case 1
    then show ?thesis using assms by (rule fl_mono_pos)
  next
    case 2
    then show ?thesis using fl_nonpos[of x] fl_nonneg[of y] by linarith
  next
    case 3
    then have "fl (- y) \<le> fl (- x)" using assms by (intro fl_mono_pos) simp_all
    then show ?thesis by (simp add: fl_neg)
  qed
qed


lemma pow2_split:
  assumes "a \<le> e"
  shows "pow2 e = real_of_int (2 ^ nat (e - a)) * pow2 a"
proof -
  have "pow2 ((e - a) + a) = pow2 (e - a) * pow2 a" by (rule pow2_add)
  moreover have "pow2 (e - a) = real_of_int (2 ^ nat (e - a))" using assms by (intro pow2_nat) simp
  ultimately show ?thesis by simp
qed

text \<open>Numbers \<open>m * 2 ^ e\<close> with a 53-bit \<open>m\<close> and \<open>e\<close> from \<open>- 1074\<close> are not changed.\<close>

lemma fl_exact:
  assumes x: "x = real_of_int m * pow2 e" and m: "\<bar>m\<bar> < 2 ^ 53" and e: "- 1074 \<le> e"
  shows "fl x = x"
proof (cases "x = 0")
  case True
  then show ?thesis by (simp add: fl_0)
next
  case False
  define bd where "bd = binade x"
  have abs: "\<bar>x\<bar> = real_of_int \<bar>m\<bar> * pow2 e" using pow2_pos[of e] by (simp add: x abs_mult)
  have le: "bd - 52 \<le> e"
  proof (cases "- 1022 < bd")
    case True
    have "real_of_int \<bar>m\<bar> < real_of_int (2 ^ 53)" using m by (simp only: of_int_less_iff)
    then have "\<bar>x\<bar> < real_of_int (2 ^ 53) * pow2 e" unfolding abs using pow2_pos[of e] by simp
    also have "\<dots> = pow2 (e + 52 + 1)" using pow2_53[of "e + 52"] by simp
    finally have "\<bar>x\<bar> < pow2 (e + 52 + 1)" .
    moreover have "pow2 bd \<le> \<bar>x\<bar>" using binade_lower[OF False] True by (simp add: bd_def)
    ultimately have "pow2 bd < pow2 (e + 52 + 1)" by linarith
    then have "bd < e + 52 + 1" using pow2_le[of "e + 52 + 1" bd] by (cases "bd < e + 52 + 1") auto
    then show ?thesis by simp
  next
    case False
    then have "bd = - 1022" using binade_ge[of x] by (simp add: bd_def)
    then show ?thesis using e by simp
  qed
  define n where "n = nat (e - (bd - 52))"
  define u where "u = pow2 (bd - 52)"
  have u: "0 < u" unfolding u_def by (rule pow2_pos)
  have p: "pow2 e = real_of_int (2 ^ n) * u" unfolding n_def u_def using le by (rule pow2_split)
  have xm: "x = real_of_int (m * 2 ^ n) * u" using x p by simp
  then have "x / u = real_of_int (m * 2 ^ n)" using u by simp
  then have "roundEven (x / u) = m * 2 ^ n" by (simp only: roundEven_int)
  then have "fl x = real_of_int (m * 2 ^ n) * u" using False by (simp add: fl_def bd_def u_def)
  then show ?thesis using xm by simp
qed

lemma fl_int: "\<bar>n\<bar> < 2 ^ 53 \<Longrightarrow> fl (real_of_int n) = real_of_int n"
  by (rule fl_exact[where m = n and e = 0]) (simp_all add: pow2_def)

lemma fl_nat: "n < 2 ^ 53 \<Longrightarrow> fl (real n) = real n"
  using fl_int[of "int n"] by simp

lemma fl_pow2: "- 1074 \<le> e \<Longrightarrow> fl (pow2 e) = pow2 e"
  by (rule fl_exact[where m = 1 and e = e]) simp_all

lemma fl_eval:
  assumes "pow2 e \<le> \<bar>x\<bar>" "\<bar>x\<bar> < pow2 (e + 1)" "- 1022 \<le> e"
  shows "fl x = real_of_int (roundEven (x / pow2 (e - 52))) * pow2 (e - 52)"
proof -
  have "x \<noteq> 0" using assms(1) pow2_pos[of e] by auto
  then show ?thesis using binade_eq[OF assms] by (simp add: fl_def)
qed

lemma roundEven_quot_bounds:
  assumes "0 < x"
  shows "0 \<le> roundEven (x / pow2 (binade x - 52)) \<and> roundEven (x / pow2 (binade x - 52)) \<le> 2 ^ 53"
proof -
  let ?u = "pow2 (binade x - 52)"
  have u: "0 < ?u" by (rule pow2_pos)
  have "0 \<le> x / ?u" using assms u by simp
  then have "roundEven (real_of_int 0) \<le> roundEven (x / ?u)" by (intro roundEven_mono) simp
  then have 1: "0 \<le> roundEven (x / ?u)" by (simp only: roundEven_int)
  have "x < real_of_int (2 ^ 53) * ?u" using binade_upper[of x] assms pow2_53[of "binade x"] by simp
  then have "x / ?u \<le> real_of_int (2 ^ 53)" using u by (simp add: field_simps)
  then have "roundEven (x / ?u) \<le> roundEven (real_of_int (2 ^ 53))" by (rule roundEven_mono)
  then have 2: "roundEven (x / ?u) \<le> 2 ^ 53" by (simp only: roundEven_int)
  show ?thesis using 1 2 by blast
qed

lemma fl_idem_pos:
  assumes "0 < x"
  shows "fl (fl x) = fl x"
proof -
  let ?u = "pow2 (binade x - 52)"
  let ?K = "roundEven (x / ?u)"
  have fx: "fl x = real_of_int ?K * ?u" using assms by (simp add: fl_def)
  have e: "- 1074 \<le> binade x - 52" using binade_ge[of x] by simp
  show ?thesis
  proof (cases "?K < 2 ^ 53")
    case True
    then have "\<bar>?K\<bar> < 2 ^ 53" using roundEven_quot_bounds[OF assms] by simp
    then show ?thesis using fx e by (intro fl_exact[where m = ?K and e = "binade x - 52"])
  next
    case False
    then have "?K = 2 ^ 53" using roundEven_quot_bounds[OF assms] by simp
    then have "fl x = pow2 (binade x + 1)" using fx pow2_53[of "binade x"] by simp
    then show ?thesis using fl_pow2[of "binade x + 1"] binade_ge[of x] by simp
  qed
qed

lemma fl_idem: "fl (fl x) = fl x"
proof -
  consider "0 < x" | "x = 0" | "x < 0" by linarith
  then show ?thesis
  proof cases
    case 1
    then show ?thesis by (rule fl_idem_pos)
  next
    case 2
    then show ?thesis by (simp add: fl_0)
  next
    case 3
    then have "fl (fl (- x)) = fl (- x)" by (intro fl_idem_pos) simp
    then show ?thesis by (simp add: fl_neg)
  qed
qed

lemma isDouble_fl: "isDouble (fl x)"
  by (simp add: isDouble_def fl_idem)

text \<open>Every result is a multiple of the smallest subnormal number.\<close>

lemma fl_grid: "\<exists>k. fl x = real_of_int k * pow2 (- 1074)"
proof (cases "x = 0")
  case True
  then have "fl x = real_of_int 0 * pow2 (- 1074)" by (simp add: fl_0)
  then show ?thesis by blast
next
  case False
  have "- 1074 \<le> binade x - 52" using binade_ge[of x] by simp
  then have "pow2 (binade x - 52) = real_of_int (2 ^ nat (binade x - 52 - (- 1074))) * pow2 (- 1074)"
    by (rule pow2_split)
  then have "fl x = real_of_int (roundEven (x / pow2 (binade x - 52)) * 2 ^ nat (binade x - 52 - (- 1074))) * pow2 (- 1074)"
    using False by (simp add: fl_def)
  then show ?thesis by blast
qed

lemma fl_pos_ge: "0 < fl x \<Longrightarrow> pow2 (- 1074) \<le> fl x"
proof -
  assume pos: "0 < fl x"
  obtain k where k: "fl x = real_of_int k * pow2 (- 1074)" using fl_grid by blast
  then have "0 < real_of_int k" using pos pow2_pos[of "- 1074"] by (simp add: zero_less_mult_iff)
  then have "1 \<le> real_of_int k" by simp
  then have "1 * pow2 (- 1074) \<le> real_of_int k * pow2 (- 1074)"
    using pow2_pos[of "- 1074"] by (simp only: mult_le_cancel_right_pos)
  then show ?thesis using k by simp
qed

lemma fl_diff_ge:
  assumes "fl x < fl y"
  shows "pow2 (- 1074) \<le> fl y - fl x"
proof -
  obtain k where k: "fl x = real_of_int k * pow2 (- 1074)" using fl_grid by blast
  obtain j where j: "fl y = real_of_int j * pow2 (- 1074)" using fl_grid by blast
  have "real_of_int k < real_of_int j" using assms pow2_pos[of "- 1074"] unfolding k j by simp
  then have "1 \<le> real_of_int (j - k)" by simp
  then have "1 * pow2 (- 1074) \<le> real_of_int (j - k) * pow2 (- 1074)"
    using pow2_pos[of "- 1074"] by (simp only: mult_le_cancel_right_pos)
  then show ?thesis unfolding k j by (simp add: algebra_simps)
qed

lemma roundEven_ge_1: "1 / 2 < y \<Longrightarrow> 1 \<le> roundEven y"
proof -
  assume y: "1 / 2 < y"
  then have f: "0 \<le> \<lfloor>y\<rfloor>" by simp
  show ?thesis
  proof (cases "\<lfloor>y\<rfloor> = 0")
    case True
    then show ?thesis using y by (simp add: roundEven_def Let_def)
  next
    case False
    then show ?thesis using f roundEven_bounds[of y] by linarith
  qed
qed

lemma fl_pos:
  assumes "pow2 (- 1075) < x"
  shows "0 < fl x"
proof -
  have x: "0 < x" using assms pow2_pos[of "- 1075"] by linarith
  show ?thesis
  proof (cases "- 1022 < binade x")
    case True
    then show ?thesis using fl_lower[OF x True] pow2_pos[of "binade x"] by linarith
  next
    case False
    then have bd: "binade x = - 1022" using binade_ge[of x] by linarith
    have "pow2 (- 1074) = 2 * pow2 (- 1075)" by (simp add: pow2_def)
    then have "1 / 2 < x / pow2 (- 1074)" using assms pow2_pos[of "- 1075"] by (simp add: field_simps)
    then have "1 \<le> roundEven (x / pow2 (- 1074))" by (rule roundEven_ge_1)
    then have "0 < real_of_int (roundEven (x / pow2 (- 1074))) * pow2 (- 1074)"
      using pow2_pos[of "- 1074"] by simp
    then show ?thesis using x bd by (simp add: fl_def)
  qed
qed

lemma fl_1: "fl 1 = 1"
  using fl_int[of 1] by simp

lemma fl_half: "fl (1 / 2) = 1 / 2"
  using fl_pow2[of "- 1"] by (simp add: pow2_def)





section \<open>rgbToHsl\<close>

lemma fl_le_int: "x \<le> real_of_int n \<Longrightarrow> \<bar>n\<bar> < 2 ^ 53 \<Longrightarrow> fl x \<le> real_of_int n"
  using fl_mono[of x "real_of_int n"] fl_int[of n] by simp

lemma fl_ge_int: "real_of_int n \<le> x \<Longrightarrow> \<bar>n\<bar> < 2 ^ 53 \<Longrightarrow> real_of_int n \<le> fl x"
  using fl_mono[of "real_of_int n" x] fl_int[of n] by simp

lemma fl_le_1: "x \<le> 1 \<Longrightarrow> fl x \<le> 1"
  using fl_le_int[of x 1] by simp

lemma fl_le_2: "x \<le> 2 \<Longrightarrow> fl x \<le> 2"
  using fl_le_int[of x 2] by simp

lemma fl_ge_1: "1 \<le> x \<Longrightarrow> 1 \<le> fl x"
  using fl_ge_int[of 1 x] by simp

lemma fl_ge_m1: "- 1 \<le> x \<Longrightarrow> - 1 \<le> fl x"
  using fl_ge_int[of "- 1" x] by simp

lemma isDouble_max: "isDouble x \<Longrightarrow> isDouble y \<Longrightarrow> isDouble (max x y)"
  by (simp add: max_def)

lemma isDouble_min: "isDouble x \<Longrightarrow> isDouble y \<Longrightarrow> isDouble (min x y)"
  by (simp add: min_def)

lemma isDouble_diff_ge:
  assumes "isDouble x" "isDouble y" "x < y"
  shows "pow2 (- 1074) \<le> y - x"
  using fl_diff_ge[of x y] assms by (simp add: isDouble_def)

lemma norm255_range: "0 \<le> x \<Longrightarrow> x \<le> 255 \<Longrightarrow> 0 \<le> norm255 x \<and> norm255 x \<le> 1"
  unfolding norm255_def using fl_nonneg[of "x / 255"] fl_le_1[of "x / 255"] by simp

lemma isDouble_norm255: "isDouble (norm255 x)"
  by (simp add: norm255_def isDouble_fl)

lemma norm_bounds:
  "normMin c \<le> norm255 (r c)" "norm255 (r c) \<le> normMax c"
  "normMin c \<le> norm255 (g c)" "norm255 (g c) \<le> normMax c"
  "normMin c \<le> norm255 (b c)" "norm255 (b c) \<le> normMax c"
  by (simp_all add: normMax_def normMin_def)

lemma isDouble_norm: "isDouble (normMax c)" "isDouble (normMin c)"
  unfolding normMax_def normMin_def
  by (intro isDouble_max isDouble_min isDouble_norm255)+

lemma norm_range:
  assumes "0 \<le> r c" "r c \<le> 255" "0 \<le> g c" "g c \<le> 255" "0 \<le> b c" "b c \<le> 255"
  shows "0 \<le> normMin c" "normMax c \<le> 1" "normMin c \<le> normMax c"
proof -
  note rr = norm255_range[OF assms(1,2)] and gg = norm255_range[OF assms(3,4)]
    and bb = norm255_range[OF assms(5,6)]
  show "0 \<le> normMin c" using rr gg bb by (simp add: normMin_def)
  show "normMax c \<le> 1" using rr gg bb by (simp add: normMax_def)
  show "normMin c \<le> normMax c" using norm_bounds(1,2)[of c] by linarith
qed

text \<open>The result, branch by branch.\<close>

lemma rgbToHsl_l: "l (rgbToHsl c) = fl (fl (normMax c + normMin c) / 2)"
  by (simp add: rgbToHsl_def Let_def normMax_def normMin_def norm255_def)

lemma rgbToHsl_achromatic:
  "normMax c = normMin c \<Longrightarrow> h (rgbToHsl c) = 0 \<and> s (rgbToHsl c) = 0"
  by (simp add: rgbToHsl_def Let_def normMax_def normMin_def norm255_def fl_0)

lemma rgbToHsl_s:
  "normMax c \<noteq> normMin c \<Longrightarrow>
   s (rgbToHsl c) =
     (if l (rgbToHsl c) > 1 / 2
      then fl (chroma c / fl (fl (2 - normMax c) - normMin c))
      else fl (chroma c / fl (normMax c + normMin c)))"
  by (simp add: rgbToHsl_def Let_def normMax_def normMin_def norm255_def chroma_def)

lemma rgbToHsl_h:
  "normMax c \<noteq> normMin c \<Longrightarrow>
   h (rgbToHsl c) =
     fl (fl ((if normMax c = norm255 (r c)
              then fl (fl (fl (norm255 (g c) - norm255 (b c)) / chroma c)
                       + (if norm255 (g c) < norm255 (b c) then 6 else 0))
              else if normMax c = norm255 (g c)
              then fl (fl (fl (norm255 (b c) - norm255 (r c)) / chroma c) + 2)
              else fl (fl (fl (norm255 (r c) - norm255 (g c)) / chroma c) + 4)) / 6) * 360)"
  unfolding rgbToHsl_def Let_def normMax_def normMin_def norm255_def chroma_def
  by (simp add: max_def min_def split: if_splits)


text \<open>The divisors are positive, and the rounded difference is at most each of them.\<close>

lemma chroma_bounds:
  assumes "0 \<le> normMin c" "normMax c \<le> 1" "normMin c < normMax c"
  shows "pow2 (- 1074) \<le> chroma c" "chroma c \<le> 1"
proof -
  have "pow2 (- 1074) \<le> normMax c - normMin c"
    using isDouble_diff_ge[OF isDouble_norm(2) isDouble_norm(1) assms(3)] .
  then have "fl (pow2 (- 1074)) \<le> fl (normMax c - normMin c)" by (rule fl_mono)
  then show "pow2 (- 1074) \<le> chroma c" by (simp add: chroma_def fl_pow2)
  show "chroma c \<le> 1" unfolding chroma_def using assms by (intro fl_le_1) simp
qed

lemma sum_divisor:
  assumes "0 \<le> normMin c" "normMax c \<le> 1" "normMin c < normMax c"
  shows "chroma c \<le> fl (normMax c + normMin c)" "fl (normMax c + normMin c) \<le> 2"
proof -
  show "chroma c \<le> fl (normMax c + normMin c)"
    unfolding chroma_def using assms by (intro fl_mono) simp
  show "fl (normMax c + normMin c) \<le> 2" using assms by (intro fl_le_2) simp
qed

lemma diff_divisor:
  assumes "0 \<le> normMin c" "normMax c \<le> 1" "normMin c < normMax c"
  shows "chroma c \<le> fl (fl (2 - normMax c) - normMin c)" "fl (fl (2 - normMax c) - normMin c) \<le> 2"
proof -
  have ge: "1 \<le> fl (2 - normMax c)" using assms by (intro fl_ge_1) simp
  have le: "fl (2 - normMax c) \<le> 2" using assms by (intro fl_le_2) simp
  show "chroma c \<le> fl (fl (2 - normMax c) - normMin c)"
    unfolding chroma_def using assms ge by (intro fl_mono) simp
  show "fl (fl (2 - normMax c) - normMin c) \<le> 2" using assms le by (intro fl_le_2) simp
qed

lemma fl_quot_range:
  assumes "0 < d" "- d \<le> x" "x \<le> d"
  shows "- 1 \<le> fl (x / d)" "fl (x / d) \<le> 1"
proof -
  have "- 1 \<le> x / d" using assms by (simp add: le_divide_eq)
  then show "- 1 \<le> fl (x / d)" by (rule fl_ge_m1)
  have "x / d \<le> 1" using assms by (simp add: divide_le_eq)
  then show "fl (x / d) \<le> 1" by (rule fl_le_1)
qed

lemma s_range:
  assumes "0 \<le> normMin c" "normMax c \<le> 1" "normMin c \<le> normMax c"
  shows "0 \<le> s (rgbToHsl c) \<and> s (rgbToHsl c) \<le> 1"
proof (cases "normMax c = normMin c")
  case True
  then show ?thesis using rgbToHsl_achromatic by simp
next
  case False
  then have lt: "normMin c < normMax c" using assms by simp
  note cb = chroma_bounds[OF assms(1,2) lt]
  have cpos: "0 < chroma c" using cb(1) pow2_pos[of "- 1074"] by linarith
  have q: "\<And>D. chroma c \<le> D \<Longrightarrow> 0 \<le> fl (chroma c / D) \<and> fl (chroma c / D) \<le> 1"
  proof -
    fix D assume D: "chroma c \<le> D"
    then have "0 < D" using cpos by linarith
    then have "0 \<le> chroma c / D" "chroma c / D \<le> 1" using cpos D by simp_all
    then show "0 \<le> fl (chroma c / D) \<and> fl (chroma c / D) \<le> 1"
      using fl_nonneg fl_le_1 by blast
  qed
  show ?thesis
    unfolding rgbToHsl_s[OF False]
    using q[OF sum_divisor(1)[OF assms(1,2) lt]] q[OF diff_divisor(1)[OF assms(1,2) lt]] by simp
qed

lemma l_range:
  assumes "0 \<le> normMin c" "normMax c \<le> 1" "normMin c \<le> normMax c"
  shows "0 \<le> l (rgbToHsl c) \<and> l (rgbToHsl c) \<le> 1"
proof -
  have a: "0 \<le> fl (normMax c + normMin c)" using assms by (intro fl_nonneg) simp
  have b2: "fl (normMax c + normMin c) \<le> 2" using assms by (intro fl_le_2) simp
  have "0 \<le> fl (fl (normMax c + normMin c) / 2)" using a by (intro fl_nonneg) simp
  moreover have "fl (fl (normMax c + normMin c) / 2) \<le> 1" using b2 by (intro fl_le_1) simp
  ultimately show ?thesis by (simp add: rgbToHsl_l)
qed

text \<open>A positive saturation for a colour that is not grey.\<close>

lemma chromatic_s_pos:
  assumes "0 \<le> normMin c" "normMax c \<le> 1" "normMin c < normMax c"
  shows "0 < s (rgbToHsl c)"
proof -
  have ne: "normMax c \<noteq> normMin c" using assms(3) by simp
  note cb = chroma_bounds[OF assms]
  have half: "pow2 (- 1074) = 2 * pow2 (- 1075)" by (simp add: pow2_def)
  have q: "\<And>D. chroma c \<le> D \<Longrightarrow> D < 2 \<Longrightarrow> 0 < fl (chroma c / D)"
  proof -
    fix D assume D: "chroma c \<le> D" "D < 2"
    have Dpos: "0 < D" using D(1) cb(1) pow2_pos[of "- 1074"] by linarith
    have "pow2 (- 1075) * D < pow2 (- 1075) * 2" using D(2) pow2_pos[of "- 1075"] by simp
    also have "\<dots> \<le> chroma c" using cb(1) half by simp
    finally have "pow2 (- 1075) < chroma c / D" using Dpos by (simp add: less_divide_eq)
    then show "0 < fl (chroma c / D)" by (rule fl_pos)
  qed
  show ?thesis
  proof (cases "l (rgbToHsl c) > 1 / 2")
    case True
    have "fl (normMax c + normMin c) / 2 > 1 / 2"
    proof (rule ccontr)
      assume "\<not> fl (normMax c + normMin c) / 2 > 1 / 2"
      then have "fl (fl (normMax c + normMin c) / 2) \<le> fl (1 / 2)" by (intro fl_mono) simp
      then show False using True by (simp add: rgbToHsl_l fl_half)
    qed
    then have "1 < fl (normMax c + normMin c)" by simp
    have "1 < normMax c + normMin c"
    proof (rule ccontr)
      assume "\<not> 1 < normMax c + normMin c"
      then have "fl (normMax c + normMin c) \<le> 1" by (intro fl_le_1) simp
      then show False using \<open>1 < fl (normMax c + normMin c)\<close> by simp
    qed
    then have "2 - normMax c \<le> real_of_int 3 / 2" using assms(3) by simp
    then have "fl (2 - normMax c) \<le> fl (real_of_int 3 * pow2 (- 1))"
      by (intro fl_mono) (simp add: pow2_def)
    also have "fl (real_of_int 3 * pow2 (- 1)) = real_of_int 3 * pow2 (- 1)"
      by (rule fl_exact[where m = 3 and e = "- 1"]) simp_all
    finally have "fl (2 - normMax c) \<le> 3 / 2" by (simp add: pow2_def)
    then have "fl (2 - normMax c) - normMin c \<le> real_of_int 3 * pow2 (- 1)"
      using assms(1) by (simp add: pow2_def)
    then have "fl (fl (2 - normMax c) - normMin c) \<le> fl (real_of_int 3 * pow2 (- 1))"
      by (rule fl_mono)
    also have "fl (real_of_int 3 * pow2 (- 1)) = real_of_int 3 * pow2 (- 1)"
      by (rule fl_exact[where m = 3 and e = "- 1"]) simp_all
    finally have "fl (fl (2 - normMax c) - normMin c) < 2" by (simp add: pow2_def)
    then show ?thesis
      unfolding rgbToHsl_s[OF ne] using True q[OF diff_divisor(1)[OF assms]] by simp
  next
    case False
    have "fl (normMax c + normMin c) < 2"
    proof (rule ccontr)
      assume "\<not> fl (normMax c + normMin c) < 2"
      then have "1 \<le> fl (fl (normMax c + normMin c) / 2)" by (intro fl_ge_1) simp
      then show False using False by (simp add: rgbToHsl_l)
    qed
    then show ?thesis
      unfolding rgbToHsl_s[OF ne] using False q[OF sum_divisor(1)[OF assms]] by simp
  qed
qed

text \<open>The hue.\<close>

lemma hue_quot:
  assumes "0 \<le> normMin c" "normMax c \<le> 1" "normMin c < normMax c"
    and "normMin c \<le> x" "x \<le> normMax c" "normMin c \<le> y" "y \<le> normMax c"
  shows "- 1 \<le> fl (fl (x - y) / chroma c)" "fl (fl (x - y) / chroma c) \<le> 1"
    "y \<le> x \<Longrightarrow> 0 \<le> fl (fl (x - y) / chroma c)" "x < y \<Longrightarrow> fl (fl (x - y) / chroma c) \<le> 0"
proof -
  note cb = chroma_bounds[OF assms(1-3)]
  have cpos: "0 < chroma c" using cb(1) pow2_pos[of "- 1074"] by linarith
  have "fl (x - y) \<le> fl (normMax c - normMin c)" using assms by (intro fl_mono) simp
  then have up: "fl (x - y) \<le> chroma c" by (simp add: chroma_def)
  have lo: "- chroma c \<le> fl (x - y)"
    using fl_mono[of "- (normMax c - normMin c)" "x - y"] fl_neg[of "normMax c - normMin c"] assms
    by (simp add: chroma_def)
  show "- 1 \<le> fl (fl (x - y) / chroma c)" "fl (fl (x - y) / chroma c) \<le> 1"
    using fl_quot_range[OF cpos lo up] by simp_all
  show "0 \<le> fl (fl (x - y) / chroma c)" if "y \<le> x"
  proof -
    have "0 \<le> fl (x - y)" using that by (intro fl_nonneg) simp
    then show ?thesis using cpos by (intro fl_nonneg) simp
  qed
  show "fl (fl (x - y) / chroma c) \<le> 0" if "x < y"
  proof -
    have "fl (x - y) \<le> 0" using that by (intro fl_nonpos) simp
    then show ?thesis using cpos by (intro fl_nonpos) (simp add: divide_le_0_iff)
  qed
qed

lemma fl_add_range:
  assumes "real_of_int m \<le> q + real_of_int n" "q + real_of_int n \<le> real_of_int k"
    "\<bar>m\<bar> < 2 ^ 53" "\<bar>k\<bar> < 2 ^ 53"
  shows "real_of_int m \<le> fl (q + real_of_int n)" "fl (q + real_of_int n) \<le> real_of_int k"
  using fl_ge_int[OF assms(1,3)] fl_le_int[OF assms(2,4)] by simp_all

lemma hue_scale:
  assumes "0 \<le> x" "x \<le> 6"
  shows "0 \<le> fl (fl (x / 6) * 360)" "fl (fl (x / 6) * 360) \<le> 360"
proof -
  have a: "0 \<le> fl (x / 6)" using assms by (intro fl_nonneg) simp
  have b1: "fl (x / 6) \<le> 1" using assms by (intro fl_le_1) simp
  show "0 \<le> fl (fl (x / 6) * 360)" using a by (intro fl_nonneg) simp
  have "fl (x / 6) * 360 \<le> real_of_int 360" using b1 by simp
  then have "fl (fl (x / 6) * 360) \<le> real_of_int 360" by (rule fl_le_int) simp
  then show "fl (fl (x / 6) * 360) \<le> 360" by simp
qed

lemma h_range:
  assumes "0 \<le> normMin c" "normMax c \<le> 1" "normMin c \<le> normMax c"
  shows "0 \<le> h (rgbToHsl c) \<and> h (rgbToHsl c) \<le> 360"
proof (cases "normMax c = normMin c")
  case True
  then show ?thesis using rgbToHsl_achromatic by simp
next
  case False
  then have lt: "normMin c < normMax c" using assms by simp
  note gb = hue_quot[OF assms(1,2) lt norm_bounds(3,4,5,6)]
    and br = hue_quot[OF assms(1,2) lt norm_bounds(5,6,1,2)]
    and rg = hue_quot[OF assms(1,2) lt norm_bounds(1,2,3,4)]
  define x where "x = (if normMax c = norm255 (r c)
              then fl (fl (fl (norm255 (g c) - norm255 (b c)) / chroma c)
                       + (if norm255 (g c) < norm255 (b c) then 6 else 0))
              else if normMax c = norm255 (g c)
              then fl (fl (fl (norm255 (b c) - norm255 (r c)) / chroma c) + 2)
              else fl (fl (fl (norm255 (r c) - norm255 (g c)) / chroma c) + 4))"
  have "0 \<le> x \<and> x \<le> 6"
  proof (cases "normMax c = norm255 (r c)")
    case True
    show ?thesis
    proof (cases "norm255 (g c) < norm255 (b c)")
      case lt: True
      have "real_of_int 5 \<le> fl (fl (fl (norm255 (g c) - norm255 (b c)) / chroma c) + real_of_int 6)"
        "fl (fl (fl (norm255 (g c) - norm255 (b c)) / chroma c) + real_of_int 6) \<le> real_of_int 6"
        using gb(1) gb(4)[OF lt] by (intro fl_add_range[where m = 5 and k = 6]; simp)+
      then show ?thesis using True lt by (simp add: x_def)
    next
      case ge: False
      have "real_of_int 0 \<le> fl (fl (fl (norm255 (g c) - norm255 (b c)) / chroma c) + real_of_int 0)"
        "fl (fl (fl (norm255 (g c) - norm255 (b c)) / chroma c) + real_of_int 0) \<le> real_of_int 1"
        using gb(2) gb(3) ge by (intro fl_add_range[where m = 0 and k = 1]; simp)+
      then show ?thesis using True ge by (simp add: x_def)
    qed
  next
    case nr: False
    show ?thesis
    proof (cases "normMax c = norm255 (g c)")
      case True
      have "real_of_int 1 \<le> fl (fl (fl (norm255 (b c) - norm255 (r c)) / chroma c) + real_of_int 2)"
        "fl (fl (fl (norm255 (b c) - norm255 (r c)) / chroma c) + real_of_int 2) \<le> real_of_int 3"
        using br(1,2) by (intro fl_add_range[where m = 1 and k = 3]; simp)+
      then show ?thesis using True nr by (simp add: x_def)
    next
      case False
      have "real_of_int 3 \<le> fl (fl (fl (norm255 (r c) - norm255 (g c)) / chroma c) + real_of_int 4)"
        "fl (fl (fl (norm255 (r c) - norm255 (g c)) / chroma c) + real_of_int 4) \<le> real_of_int 5"
        using rg(1,2) by (intro fl_add_range[where m = 3 and k = 5]; simp)+
      then show ?thesis using False nr by (simp add: x_def)
    qed
  qed
  then have "0 \<le> fl (fl (x / 6) * 360) \<and> fl (fl (x / 6) * 360) \<le> 360"
    using hue_scale[of x] by simp
  then show ?thesis unfolding rgbToHsl_h[OF False] x_def .
qed


text \<open>A red with a trace of blue: \<open>6 - b / 255\<close> rounds to 6.\<close>

lemma norm255_trace: "norm255 (b nearlyRed) = 4521260802379792 / 2 ^ 120"
proof -
  have "fl (1 / 2 ^ 60 / 255) =
      real_of_int (roundEven (1 / 2 ^ 60 / 255 / pow2 (- 68 - 52))) * pow2 (- 68 - 52)"
    by (rule fl_eval) (simp_all add: pow2_def)
  moreover have "roundEven (1 / 2 ^ 60 / 255 / pow2 (- 68 - 52)) = 4521260802379792"
    by (simp add: pow2_def roundEven_def Let_def)
  ultimately show ?thesis by (simp add: norm255_def pow2_def nearlyRed_def)
qed

lemma six_minus_trace: "fl (6 - norm255 (b nearlyRed)) = 6"
proof -
  let ?x = "6 - norm255 (b nearlyRed)"
  have "fl ?x = real_of_int (roundEven (?x / pow2 (2 - 52))) * pow2 (2 - 52)"
    by (rule fl_eval) (simp_all add: pow2_def norm255_trace)
  moreover have "roundEven (?x / pow2 (2 - 52)) = 6755399441055744"
    by (simp add: pow2_def roundEven_def Let_def norm255_trace)
  ultimately show ?thesis by (simp add: pow2_def)
qed

text \<open>
  C8, as stated, fails: the channels of this red with a trace of blue are in \<open>[0, 255]\<close>
  and its hue is 360, outside \<open>[0, 360)\<close>.
\<close>

theorem rgbToHsl_hue_360_counterexample:
  "0 \<le> r nearlyRed \<and> r nearlyRed \<le> 255 \<and> 0 \<le> g nearlyRed \<and> g nearlyRed \<le> 255
   \<and> 0 \<le> b nearlyRed \<and> b nearlyRed \<le> 255
   \<and> h (rgbToHsl nearlyRed) = 360 \<and> \<not> h (rgbToHsl nearlyRed) < 360"
proof -
  have nr: "norm255 (r nearlyRed) = 1" by (simp add: nearlyRed_def norm255_def fl_1)
  have ng: "norm255 (g nearlyRed) = 0" by (simp add: nearlyRed_def norm255_def fl_0)
  have tpos: "0 < norm255 (b nearlyRed)" "norm255 (b nearlyRed) \<le> 1" by (simp_all add: norm255_trace)
  have mx: "normMax nearlyRed = 1" using tpos by (simp add: normMax_def nr ng)
  have mn: "normMin nearlyRed = 0" using tpos by (simp add: normMin_def nr ng)
  have ch: "chroma nearlyRed = 1" by (simp add: chroma_def mx mn fl_1)
  have ne: "normMax nearlyRed \<noteq> normMin nearlyRed" by (simp add: mx mn)
  have t1: "fl (- norm255 (b nearlyRed)) = - norm255 (b nearlyRed)"
    using isDouble_norm255[of "b nearlyRed"] by (simp add: fl_neg isDouble_def)
  have "h (rgbToHsl nearlyRed) = fl (fl (fl (6 - norm255 (b nearlyRed)) / 6) * 360)"
    unfolding rgbToHsl_h[OF ne] mx nr ng ch using tpos by (simp add: t1)
  also have "\<dots> = fl (fl 1 * 360)" by (simp add: six_minus_trace)
  also have "\<dots> = 360" using fl_int[of 360] by (simp add: fl_1)
  finally have hv: "h (rgbToHsl nearlyRed) = 360" .
  have "0 \<le> r nearlyRed \<and> r nearlyRed \<le> 255 \<and> 0 \<le> g nearlyRed \<and> g nearlyRed \<le> 255
      \<and> 0 \<le> b nearlyRed \<and> b nearlyRed \<le> 255"
    by (simp add: nearlyRed_def)
  then show ?thesis using hv by simp
qed

text \<open>
  C8, amended: for channels in \<open>[0, 255]\<close>, \<open>rgbToHsl\<close> returns a hue in \<open>[0, 360]\<close> (360
  included) and a saturation and a lightness in \<open>[0, 1]\<close>; hue and saturation are both 0
  exactly when the maximum and the minimum normalized channel are equal; otherwise the
  saturation is the rounded \<open>delta / (2 - max - min)\<close> when the lightness exceeds 0.5 and the
  rounded \<open>delta / (max + min)\<close> when not, and the hue comes from the channel that is the
  maximum (red first, then green, then blue), with 6 added in the red case when green is
  below blue, before the scaling to degrees.
\<close>

theorem rgbToHsl_spec:
  assumes "0 \<le> r c" "r c \<le> 255" "0 \<le> g c" "g c \<le> 255" "0 \<le> b c" "b c \<le> 255"
  shows "0 \<le> h (rgbToHsl c) \<and> h (rgbToHsl c) \<le> 360
       \<and> 0 \<le> s (rgbToHsl c) \<and> s (rgbToHsl c) \<le> 1
       \<and> 0 \<le> l (rgbToHsl c) \<and> l (rgbToHsl c) \<le> 1
       \<and> l (rgbToHsl c) = fl (fl (normMax c + normMin c) / 2)
       \<and> ((h (rgbToHsl c) = 0 \<and> s (rgbToHsl c) = 0) \<longleftrightarrow> normMax c = normMin c)
       \<and> (normMax c \<noteq> normMin c \<longrightarrow>
            s (rgbToHsl c) =
              (if l (rgbToHsl c) > 1 / 2
               then fl (chroma c / fl (fl (2 - normMax c) - normMin c))
               else fl (chroma c / fl (normMax c + normMin c)))
          \<and> h (rgbToHsl c) =
              fl (fl ((if normMax c = norm255 (r c)
                       then fl (fl (fl (norm255 (g c) - norm255 (b c)) / chroma c)
                                + (if norm255 (g c) < norm255 (b c) then 6 else 0))
                       else if normMax c = norm255 (g c)
                       then fl (fl (fl (norm255 (b c) - norm255 (r c)) / chroma c) + 2)
                       else fl (fl (fl (norm255 (r c) - norm255 (g c)) / chroma c) + 4)) / 6) * 360))"
proof -
  note nr = norm_range[OF assms]
  have 1: "0 \<le> h (rgbToHsl c) \<and> h (rgbToHsl c) \<le> 360" by (rule h_range[OF nr])
  have 2: "0 \<le> s (rgbToHsl c) \<and> s (rgbToHsl c) \<le> 1" by (rule s_range[OF nr])
  have 3: "0 \<le> l (rgbToHsl c) \<and> l (rgbToHsl c) \<le> 1" by (rule l_range[OF nr])
  have 4: "l (rgbToHsl c) = fl (fl (normMax c + normMin c) / 2)" by (rule rgbToHsl_l)
  have "normMax c \<noteq> normMin c \<Longrightarrow> s (rgbToHsl c) \<noteq> 0"
    using chromatic_s_pos[OF nr(1,2)] nr(3) by fastforce
  then have 5: "(h (rgbToHsl c) = 0 \<and> s (rgbToHsl c) = 0) \<longleftrightarrow> normMax c = normMin c"
    using rgbToHsl_achromatic[of c] by blast
  have 6: "normMax c \<noteq> normMin c \<longrightarrow>
            s (rgbToHsl c) =
              (if l (rgbToHsl c) > 1 / 2
               then fl (chroma c / fl (fl (2 - normMax c) - normMin c))
               else fl (chroma c / fl (normMax c + normMin c)))"
    using rgbToHsl_s[of c] by blast
  have 7: "normMax c \<noteq> normMin c \<longrightarrow> h (rgbToHsl c) =
              fl (fl ((if normMax c = norm255 (r c)
                       then fl (fl (fl (norm255 (g c) - norm255 (b c)) / chroma c)
                                + (if norm255 (g c) < norm255 (b c) then 6 else 0))
                       else if normMax c = norm255 (g c)
                       then fl (fl (fl (norm255 (b c) - norm255 (r c)) / chroma c) + 2)
                       else fl (fl (fl (norm255 (r c) - norm255 (g c)) / chroma c) + 4)) / 6) * 360)"
    using rgbToHsl_h[of c] by blast
  show ?thesis using 1 2 3 4 5 6 7 by blast
qed

theorem rgbToHsl_spec_witness:
  "0 \<le> r orange \<and> r orange \<le> 255 \<and> 0 \<le> g orange \<and> g orange \<le> 255 \<and> 0 \<le> b orange \<and> b orange \<le> 255
   \<and> 0 \<le> h (rgbToHsl orange) \<and> h (rgbToHsl orange) \<le> 360
   \<and> s (rgbToHsl orange) = 1 \<and> l (rgbToHsl orange) = 1 / 2"
proof -
  have nr: "norm255 (r orange) = 1" by (simp add: orange_def norm255_def fl_1)
  have nb: "norm255 (b orange) = 0" by (simp add: orange_def norm255_def fl_0)
  have ng: "0 \<le> norm255 (g orange)" "norm255 (g orange) \<le> 1"
    using norm255_range[of "g orange"] by (simp_all add: orange_def)
  have mx: "normMax orange = 1" using ng by (simp add: normMax_def nr nb)
  have mn: "normMin orange = 0" using ng by (simp add: normMin_def nr nb)
  have chr: "chroma orange = 1" by (simp add: chroma_def mx mn fl_1)
  have ch: "r orange = 255" "g orange = 128" "b orange = 0" by (simp_all add: orange_def)
  have l1: "l (rgbToHsl orange) = 1 / 2" by (simp add: rgbToHsl_l mx mn fl_1 fl_half)
  show ?thesis
    using rgbToHsl_spec[of orange] l1
    by (simp add: ch mx mn chr fl_1)
qed

section \<open>Loops and array lengths\<close>

lemma fold_upt_invariant:
  assumes base: "P 0 a"
    and step: "\<And>i x. i < n \<Longrightarrow> P i x \<Longrightarrow> P (Suc i) (f i x)"
  shows "P n (fold f [0..<n] a)"
proof -
  have "m \<le> n \<Longrightarrow> P m (fold f [0..<m] a)" for m
  proof (induction m)
    case 0
    show ?case using base by simp
  next
    case (Suc m)
    then have "P m (fold f [0..<m] a)" and "m < n" by simp_all
    then show ?case using step by simp
  qed
  then show ?thesis by simp
qed

lemma length_taAdd: "length (taAdd xs i v) = length xs"
  by (simp add: taAdd_def)

lemma length_taIncr: "length (taIncr xs i) = length xs"
  by (simp add: taIncr_def)

lemma length_assignPixel:
  "length (fst (assignPixel pixels k cents i acc)) = length (fst acc)"
  "length (snd (assignPixel pixels k cents i acc)) = length (snd acc)"
  by (simp_all add: assignPixel_def Let_def length_taAdd length_taIncr)

lemma length_eStep:
  "length (fst (eStep pixels k cents)) = k * 3 \<and> length (snd (eStep pixels k cents)) = k"
  unfolding eStep_def
  by (rule fold_upt_invariant[where P = "\<lambda>i acc. length (fst acc) = k * 3 \<and> length (snd acc) = k"])
     (simp_all add: length_assignPixel)

lemma length_updateCentroid: "length (updateCentroid csums counts c cents) = length cents"
  by (simp add: updateCentroid_def)

lemma length_mStep: "length (mStep k csums counts cents) = length cents"
  unfolding mStep_def
  by (rule fold_upt_invariant[where P = "\<lambda>i cs. length cs = length cents"])
     (simp_all add: length_updateCentroid)

lemma iteration_eq:
  "iteration pixels k st =
     (mStep k (fst (eStep pixels k (fst st))) (snd (eStep pixels k (fst st))) (fst st),
      eStep pixels k (fst st))"
  by (simp add: iteration_def Let_def)

lemma length_iteration: "length (fst (iteration pixels k st)) = length (fst st)"
  by (simp add: iteration_eq length_mStep)

lemma length_funpow_iteration:
  "length (fst ((iteration pixels k ^^ n) st)) = length (fst st)"
  by (induction n) (simp_all add: length_iteration)

lemma length_initCentroids: "length (initCentroids rnd pixels k) = k"
  by (simp add: initCentroids_def)

text \<open>The state after the loop comes from one last pass over centroids of the right number.\<close>

lemma kMeans_last:
  "\<exists>cents. length cents = k \<and>
     kMeans rnd pixels k =
       (mStep k (fst (eStep pixels k cents)) (snd (eStep pixels k cents)) cents, eStep pixels k cents)"
proof -
  define st where "st = (iteration pixels k ^^ 4) (initCentroids rnd pixels k, replicate (k * 3) 0, replicate k 0)"
  have "kMeans rnd pixels k = iteration pixels k st"
    unfolding kMeans_def maxIterations_def st_def by (simp add: eval_nat_numeral)
  moreover have "length (fst st) = k"
    by (simp add: st_def length_funpow_iteration length_initCentroids)
  ultimately show ?thesis using iteration_eq by metis
qed

lemma length_kMeans: "length (fst (kMeans rnd pixels k)) = k"
  using kMeans_last[of k rnd pixels] by (auto simp: length_mStep)

lemma materialize_Nil: "materialize [] counts = []"
  by (simp add: materialize_def List.map_filter_simps)

lemma sortByPopulation_Nil: "sortByPopulation [] = []"
  by (simp add: sortByPopulation_def)

lemma quantizeColors_zero: "quantizeColors rnd pixels 0 = Inr []"
proof -
  have "fst (kMeans rnd pixels 0) = []" using length_kMeans[of rnd pixels 0] by simp
  then show ?thesis by (simp add: quantizeColors_def Let_def materialize_Nil sortByPopulation_Nil)
qed

section \<open>Requests for no cluster\<close>

text \<open>
  C3, as stated, fails: for a negative \<open>k\<close> the construction of the accumulator arrays
  raises a \<open>RangeError\<close>, so the result is not the empty sequence.
\<close>

theorem quantizeColors_negative_k_counterexample:
  "quantizeColors firstPixelRnd [] (- 1) \<noteq> Inr []"
  by (simp add: quantizeColors_def)

text \<open>
  C3, amended: for \<open>k = 0\<close> the result is the empty sequence, whatever the buffer; for a
  negative \<open>k\<close> the call raises a \<open>RangeError\<close> when it constructs its arrays.
\<close>

theorem quantizeColors_nonpositive_k:
  "k \<le> 0 \<Longrightarrow> quantizeColors rnd pixels k = (if k = 0 then Inr [] else Inl RangeError)"
  using quantizeColors_zero by (simp add: quantizeColors_def)

theorem quantizeColors_nonpositive_k_witness:
  "(0::int) \<le> 0 \<and> quantizeColors firstPixelRnd [255, 0, 0, 255] 0 = Inr []
   \<and> (- 3::int) \<le> 0 \<and> quantizeColors firstPixelRnd [255, 0, 0, 255] (- 3) = Inl RangeError"
  using quantizeColors_nonpositive_k[of 0 firstPixelRnd "[255, 0, 0, 255]"]
        quantizeColors_nonpositive_k[of "- 3" firstPixelRnd "[255, 0, 0, 255]"]
  by simp

section \<open>Transparent buffers\<close>

lemma eStep_transparent:
  assumes "\<forall>i < pixelCount pixels. pixels ! (i * 4 + 3) < 128"
  shows "eStep pixels k cents = (replicate (k * 3) 0, replicate k 0)"
  unfolding eStep_def
  by (rule fold_upt_invariant[where P = "\<lambda>i acc. acc = (replicate (k * 3) 0, replicate k 0)"])
     (use assms in \<open>simp_all add: assignPixel_def Let_def\<close>)

lemma map_filter_all_None:
  "(\<forall>x \<in> set xs. f x = None) \<Longrightarrow> List.map_filter f xs = []"
  by (induction xs) (simp_all add: List.map_filter_simps)

lemma materialize_zero_counts:
  "length cents = k \<Longrightarrow> materialize cents (replicate k 0) = []"
  unfolding materialize_def
  by (rule map_filter_all_None) (simp add: toPaletteColor_def)

lemma quantizeColors_transparent:
  assumes "0 \<le> k" "\<forall>i < pixelCount pixels. pixels ! (i * 4 + 3) < 128"
  shows "quantizeColors rnd pixels k = Inr []"
proof -
  obtain cents where c: "length cents = nat k"
    and km: "kMeans rnd pixels (nat k) =
       (mStep (nat k) (fst (eStep pixels (nat k) cents)) (snd (eStep pixels (nat k) cents)) cents,
        eStep pixels (nat k) cents)"
    using kMeans_last by blast
  have "snd (snd (kMeans rnd pixels (nat k))) = replicate (nat k) 0"
    using km eStep_transparent[OF assms(2)] by simp
  moreover have "length (fst (kMeans rnd pixels (nat k))) = nat k" by (rule length_kMeans)
  ultimately show ?thesis using assms(1)
    by (simp add: quantizeColors_def Let_def materialize_zero_counts sortByPopulation_Nil)
qed

text \<open>
  C4. When every pixel has an alpha below 128 (the empty buffer included), \<open>quantizeColors\<close>
  returns the empty sequence, and the role selection on the empty sequence returns no
  \<open>Palette\<close>: it raises a \<open>TypeError\<close>.
\<close>

theorem transparent_no_palette:
  assumes "length pixels mod 4 = 0" "0 \<le> k"
    and "\<forall>i < length pixels div 4. pixels ! (i * 4 + 3) < 128"
  shows "quantizeColors rnd pixels k = Inr [] \<and> classify [] = Inl TypeError
         \<and> (\<forall>p. classify [] \<noteq> Inr p)"
  using quantizeColors_transparent[OF assms(2), of pixels rnd] assms(3)
  by (simp add: pixelCount_def classify_def)

theorem transparent_no_palette_witness:
  "length [10, 20, 30, 0, 40, 50, 60, 127 :: byte] mod 4 = 0 \<and> (0::int) \<le> 8
   \<and> [10, 20, 30, 0, 40, 50, 60, 127 :: byte] ! (0 * 4 + 3) < 128
   \<and> [10, 20, 30, 0, 40, 50, 60, 127 :: byte] ! (1 * 4 + 3) < 128
   \<and> quantizeColors firstPixelRnd [10, 20, 30, 0, 40, 50, 60, 127] 8 = Inr []
   \<and> quantizeColors firstPixelRnd [] 8 = Inr []
   \<and> classify [] = Inl TypeError"
proof -
  have h: "\<forall>i < length [10, 20, 30, 0, 40, 50, 60, 127 :: byte] div 4.
         [10, 20, 30, 0, 40, 50, 60, 127 :: byte] ! (i * 4 + 3) < 128"
  proof (intro allI impI)
    fix i :: nat
    assume "i < length [10, 20, 30, 0, 40, 50, 60, 127 :: byte] div 4"
    then have "i = 0 \<or> i = 1" by auto
    then show "[10, 20, 30, 0, 40, 50, 60, 127 :: byte] ! (i * 4 + 3) < 128" by auto
  qed
  show ?thesis
    using h transparent_no_palette[of "[10, 20, 30, 0, 40, 50, 60, 127]" 8 firstPixelRnd]
          transparent_no_palette[of "[]" 8 firstPixelRnd]
    by simp
qed

section \<open>Cluster counts\<close>

lemma wrapInt32_id: "- (2 ^ 31) \<le> x \<Longrightarrow> x < 2 ^ 31 \<Longrightarrow> wrapInt32 x = x"
  by (simp add: wrapInt32_def)

lemma nearestStep_snd:
  "snd (nearestStep p cents c st) = c \<or> snd (nearestStep p cents c st) = snd st"
  by (simp add: nearestStep_def Let_def split: option.splits)

lemma nearest_less: "0 < k \<Longrightarrow> nearest p cents k < k"
  unfolding nearest_def
proof (rule fold_upt_invariant[where P = "\<lambda>i st. snd st < k"])
  show "0 < k \<Longrightarrow> snd (None :: real option, 0 :: nat) < k" by simp
next
  fix i and x :: "real option \<times> nat"
  assume "i < k" "snd x < k"
  then show "snd (nearestStep p cents i x) < k"
    using nearestStep_snd[of p cents i x] by auto
qed

lemma sum_list_incr:
  fixes xs :: "int list"
  shows "i < length xs \<Longrightarrow> sum_list (xs[i := xs ! i + 1]) = sum_list xs + 1"
proof (induction xs arbitrary: i)
  case Nil
  then show ?case by simp
next
  case (Cons x xs)
  then show ?case by (cases i) simp_all
qed

lemma nth_le_sum_list:
  fixes xs :: "int list"
  shows "\<forall>x \<in> set xs. 0 \<le> x \<Longrightarrow> i < length xs \<Longrightarrow> xs ! i \<le> sum_list xs"
proof (induction xs arbitrary: i)
  case Nil
  then show ?case by simp
next
  case (Cons x xs)
  have nn: "0 \<le> sum_list xs" using Cons.prems(1) by (simp add: sum_list_nonneg)
  show ?case
  proof (cases i)
    case 0
    then show ?thesis using nn by simp
  next
    case (Suc j)
    then have "xs ! j \<le> sum_list xs" using Cons by simp
    then show ?thesis using Suc Cons.prems(1) by simp
  qed
qed


lemma opaqueUpTo_0: "opaqueUpTo pixels 0 = 0"
  by (simp add: opaqueUpTo_def)

lemma opaqueUpTo_Suc:
  "opaqueUpTo pixels (Suc n) = (if pixels ! (n * 4 + 3) < 128 then opaqueUpTo pixels n else Suc (opaqueUpTo pixels n))"
  by (simp add: opaqueUpTo_def not_less)

lemma opaqueUpTo_le: "opaqueUpTo pixels n \<le> n"
  unfolding opaqueUpTo_def using length_filter_le[of _ "[0..<n]"] by simp

lemma taIncr_inv:
  assumes len: "length xs = k" and nn: "\<forall>x \<in> set xs. 0 \<le> x"
    and sm: "sum_list xs = int m" and bound: "int m + 1 < 2 ^ 31" and ci: "ci < k"
  shows "length (taIncr xs ci) = k \<and> (\<forall>x \<in> set (taIncr xs ci). 0 \<le> x) \<and>
         sum_list (taIncr xs ci) = int (Suc m)"
proof -
  have le: "xs ! ci \<le> int m" using nth_le_sum_list[OF nn] ci len sm by simp
  have ge: "0 \<le> xs ! ci" using nn ci len by simp
  have w: "wrapInt32 (xs ! ci + 1) = xs ! ci + 1"
    using le ge bound by (intro wrapInt32_id) simp_all
  have eq: "taIncr xs ci = xs[ci := xs ! ci + 1]"
    using ci len w by (simp add: taIncr_def)
  have "\<forall>x \<in> set (xs[ci := xs ! ci + 1]). 0 \<le> x"
  proof
    fix x assume "x \<in> set (xs[ci := xs ! ci + 1])"
    then have "x \<in> insert (xs ! ci + 1) (set xs)" using set_update_subset_insert by fast
    then show "0 \<le> x" using nn ge by auto
  qed
  then show ?thesis using eq len sm sum_list_incr[of ci xs] ci by simp
qed

lemma assignPixel_countsInv:
  assumes bound: "pixelCount pixels < 2 ^ 31" and i: "i < pixelCount pixels"
    and inv: "countsInv pixels k i acc"
  shows "countsInv pixels k (Suc i) (assignPixel pixels k cents i acc)"
proof (cases "pixels ! (i * 4 + 3) < 128")
  case True
  then show ?thesis using inv by (simp add: countsInv_def assignPixel_def Let_def opaqueUpTo_Suc)
next
  case False
  then have ap: "snd (assignPixel pixels k cents i acc) =
      taIncr (snd acc) (nearest \<lparr>r = byteAt pixels (i * 4), g = byteAt pixels (i * 4 + 1), b = byteAt pixels (i * 4 + 2)\<rparr> cents k)"
    by (simp add: assignPixel_def Let_def)
  show ?thesis
  proof (cases "k = 0")
    case True
    then show ?thesis using inv ap by (simp add: countsInv_def taIncr_def)
  next
    case k: False
    define ci where "ci = nearest \<lparr>r = byteAt pixels (i * 4), g = byteAt pixels (i * 4 + 1), b = byteAt pixels (i * 4 + 2)\<rparr> cents k"
    have ci: "ci < k" unfolding ci_def using k by (intro nearest_less) simp
    have m: "int (opaqueUpTo pixels i) + 1 < 2 ^ 31"
      using opaqueUpTo_le[of pixels i] i bound by simp
    have "length (taIncr (snd acc) ci) = k \<and> (\<forall>x \<in> set (taIncr (snd acc) ci). 0 \<le> x) \<and>
         sum_list (taIncr (snd acc) ci) = int (Suc (opaqueUpTo pixels i))"
      using inv k by (intro taIncr_inv[OF _ _ _ m ci]) (simp_all add: countsInv_def)
    then show ?thesis using False k ap
      by (simp add: countsInv_def opaqueUpTo_Suc ci_def)
  qed
qed

lemma eStep_countsInv:
  assumes "pixelCount pixels < 2 ^ 31"
  shows "countsInv pixels k (pixelCount pixels) (eStep pixels k cents)"
  unfolding eStep_def
proof (rule fold_upt_invariant[where P = "countsInv pixels k"])
  show "countsInv pixels k 0 (replicate (k * 3) 0, replicate k 0)"
    by (simp add: countsInv_def opaqueUpTo_0 sum_list_replicate)
next
  fix i x
  assume "i < pixelCount pixels" "countsInv pixels k i x"
  then show "countsInv pixels k (Suc i) (assignPixel pixels k cents i x)"
    using assignPixel_countsInv[OF assms] by simp
qed

lemma kMeans_counts:
  assumes "pixelCount pixels < 2 ^ 31"
  shows "countsInv pixels k (pixelCount pixels) (snd (kMeans rnd pixels k))"
  using kMeans_last[of k rnd pixels] eStep_countsInv[OF assms] by auto

section \<open>The centroids after the M-step\<close>

lemma updateCentroid_nth:
  "j < length cents \<Longrightarrow>
   updateCentroid csums counts c cents ! j =
     (if j = c \<and> counts ! c > 0
      then Some \<lparr>r = fl (csums ! (c * 3) / real_of_int (counts ! c)),
                g = fl (csums ! (c * 3 + 1) / real_of_int (counts ! c)),
                b = fl (csums ! (c * 3 + 2) / real_of_int (counts ! c))\<rparr>
      else cents ! j)"
  by (simp add: updateCentroid_def)

lemma mStep_nth:
  assumes "length cents = k" "j < k"
  shows "mStep k csums counts cents ! j =
     (if counts ! j > 0
      then Some \<lparr>r = fl (csums ! (j * 3) / real_of_int (counts ! j)),
                g = fl (csums ! (j * 3 + 1) / real_of_int (counts ! j)),
                b = fl (csums ! (j * 3 + 2) / real_of_int (counts ! j))\<rparr>
      else cents ! j)"
proof -
  let ?mean = "\<lambda>j. Some \<lparr>r = fl (csums ! (j * 3) / real_of_int (counts ! j)),
                g = fl (csums ! (j * 3 + 1) / real_of_int (counts ! j)),
                b = fl (csums ! (j * 3 + 2) / real_of_int (counts ! j))\<rparr>"
  let ?P = "\<lambda>i cs. length cs = k \<and>
              (\<forall>j < k. cs ! j = (if j < i \<and> counts ! j > 0 then ?mean j else cents ! j))"
  have "?P k (fold (updateCentroid csums counts) [0..<k] cents)"
  proof (rule fold_upt_invariant[where P = ?P])
    show "?P 0 cents" using assms by simp
  next
    fix i cs
    assume i: "i < k" and inv: "?P i cs"
    have len: "length (updateCentroid csums counts i cs) = k"
      using inv by (simp add: length_updateCentroid)
    have "\<forall>j < k. updateCentroid csums counts i cs ! j =
             (if j < Suc i \<and> counts ! j > 0 then ?mean j else cents ! j)"
    proof (intro allI impI)
      fix j assume j: "j < k"
      then have "updateCentroid csums counts i cs ! j =
          (if j = i \<and> counts ! i > 0 then ?mean i else cs ! j)"
        using inv updateCentroid_nth[of j cs csums counts i] by simp
      then show "updateCentroid csums counts i cs ! j =
             (if j < Suc i \<and> counts ! j > 0 then ?mean j else cents ! j)"
        using inv j by (auto simp: less_Suc_eq)
    qed
    then show "?P (Suc i) (updateCentroid csums counts i cs)" using len by blast
  qed
  then show ?thesis using assms by (simp add: mStep_def)
qed

lemma set_map_filter_iff:
  "y \<in> set (List.map_filter f xs) \<longleftrightarrow> (\<exists>x \<in> set xs. f x = Some y)"
  by (induction xs) (auto split: option.splits)

lemma population_makeColor: "population (makeColor c n) = n"
  by (simp add: makeColor_def Let_def)

lemma materialize_elem:
  assumes "x \<in> set (materialize cents counts)"
  shows "\<exists>i c. i < length cents \<and> counts ! i \<noteq> 0 \<and> cents ! i = Some c \<and> x = makeColor c (counts ! i)"
proof -
  obtain i where i: "i < length cents" and f: "toPaletteColor cents counts i = Some x"
    using assms by (auto simp: materialize_def set_map_filter_iff)
  from f show ?thesis using i
    by (auto simp: toPaletteColor_def Let_def split: if_splits option.splits)
qed

lemma length_map_filter_le: "length (List.map_filter f xs) \<le> length xs"
  by (simp add: List.map_filter_def)

lemma length_materialize: "length (materialize cents counts) \<le> length cents"
  unfolding materialize_def using length_map_filter_le[of _ "[0..<length cents]"] by simp

section \<open>Centroids with undefined channels\<close>

text \<open>
  A cluster that has pixels after the last pass has a centroid with defined channels: the
  last case of \<open>toPaletteColor\<close> is not reached.
\<close>

lemma kMeans_defined_centroid:
  assumes "pixelCount pixels < 2 ^ 31" "i < k" "snd (snd (kMeans rnd pixels k)) ! i \<noteq> 0"
  shows "fst (kMeans rnd pixels k) ! i \<noteq> None"
proof -
  obtain cents where len: "length cents = k"
    and km: "kMeans rnd pixels k =
       (mStep k (fst (eStep pixels k cents)) (snd (eStep pixels k cents)) cents, eStep pixels k cents)"
    using kMeans_last by blast
  have inv: "countsInv pixels k (pixelCount pixels) (eStep pixels k cents)"
    by (rule eStep_countsInv[OF assms(1)])
  then have "0 \<le> snd (eStep pixels k cents) ! i" using assms(2) by (simp add: countsInv_def)
  then have "0 < snd (eStep pixels k cents) ! i" using assms(3) km by simp
  then show ?thesis using km mStep_nth[OF len assms(2)] by simp
qed

lemma toPaletteColor_defined:
  assumes "pixelCount pixels < 2 ^ 31" "i < k"
  shows "toPaletteColor (fst (kMeans rnd pixels k)) (snd (snd (kMeans rnd pixels k))) i = None
         \<longleftrightarrow> snd (snd (kMeans rnd pixels k)) ! i = 0"
proof (cases "snd (snd (kMeans rnd pixels k)) ! i = 0")
  case True
  then show ?thesis by (simp add: toPaletteColor_def)
next
  case False
  then have "fst (kMeans rnd pixels k) ! i \<noteq> None"
    by (rule kMeans_defined_centroid[OF assms])
  then show ?thesis using False by (auto simp: toPaletteColor_def)
qed

section \<open>Size of the result and populations\<close>

text \<open>
  C1, amended: for a buffer of whole pixels with fewer than \<open>2 ^ 31\<close> pixels and \<open>k \<ge> 0\<close>,
  \<open>quantizeColors\<close> returns at most \<open>k\<close> entries and each has a population of at least 1.
  From \<open>2 ^ 31\<close> pixels on, the 32-bit counter of a cluster can wrap to a negative
  population (section \<open>Single-colour images\<close>).
\<close>

theorem quantizeColors_size_population:
  assumes "length pixels mod 4 = 0" "0 \<le> k" "length pixels div 4 < 2 ^ 31"
  shows "\<exists>cs. quantizeColors rnd pixels k = Inr cs \<and> int (length cs) \<le> k
           \<and> (\<forall>c \<in> set cs. 1 \<le> population c)"
proof -
  define st where "st = kMeans rnd pixels (nat k)"
  define cs where "cs = sortByPopulation (materialize (fst st) (snd (snd st)))"
  have q: "quantizeColors rnd pixels k = Inr cs"
    using assms(2) by (simp add: quantizeColors_def Let_def cs_def st_def)
  have "length cs \<le> length (fst st)"
    using length_materialize by (simp add: cs_def sortByPopulation_def)
  then have len: "int (length cs) \<le> k"
    using assms(2) by (simp add: st_def length_kMeans)
  have inv: "countsInv pixels (nat k) (pixelCount pixels) (snd st)"
    unfolding st_def using assms(3) by (intro kMeans_counts) (simp add: pixelCount_def)
  have "\<forall>c \<in> set cs. 1 \<le> population c"
  proof
    fix c assume "c \<in> set cs"
    then have "c \<in> set (materialize (fst st) (snd (snd st)))"
      by (simp add: cs_def sortByPopulation_def)
    then obtain i c0 where i: "i < length (fst st)" and nz: "snd (snd st) ! i \<noteq> 0"
      and c: "c = makeColor c0 (snd (snd st) ! i)"
      using materialize_elem by blast
    have "i < length (snd (snd st))"
      using i inv by (simp add: countsInv_def st_def length_kMeans)
    then have "0 \<le> snd (snd st) ! i" using inv by (simp add: countsInv_def)
    then show "1 \<le> population c" using nz c by (simp add: population_makeColor)
  qed
  then show ?thesis using q len by blast
qed

theorem quantizeColors_size_population_witness:
  "length [255, 0, 0, 255, 0, 0, 255, 200 :: byte] mod 4 = 0 \<and> (0::int) \<le> 3
   \<and> length [255, 0, 0, 255, 0, 0, 255, 200 :: byte] div 4 < 2 ^ 31
   \<and> (\<exists>cs. quantizeColors firstPixelRnd [255, 0, 0, 255, 0, 0, 255, 200] 3 = Inr cs
          \<and> int (length cs) \<le> 3 \<and> (\<forall>c \<in> set cs. 1 \<le> population c))"
  using quantizeColors_size_population[of "[255, 0, 0, 255, 0, 0, 255, 200]" 3 firstPixelRnd]
  by simp

section \<open>Sum of the populations\<close>

lemma sum_list_insort_key:
  fixes f :: "'a \<Rightarrow> int"
  shows "sum_list (map f (insort_key key x xs)) = f x + sum_list (map f xs)"
  by (induction xs) simp_all

lemma sum_list_sort_key:
  fixes f :: "'a \<Rightarrow> int"
  shows "sum_list (map f (sort_key key xs)) = sum_list (map f xs)"
  by (induction xs) (simp_all add: sum_list_insort_key)

lemma sum_map_filter_le:
  assumes "\<forall>i \<in> set js. 0 \<le> counts ! i"
  shows "sum_list (map population (List.map_filter (toPaletteColor cents counts) js))
         \<le> sum_list (map (\<lambda>i. counts ! i) js)"
  using assms
proof (induction js)
  case Nil
  show ?case by simp
next
  case (Cons j js)
  then have ih: "sum_list (map population (List.map_filter (toPaletteColor cents counts) js))
         \<le> sum_list (map (\<lambda>i. counts ! i) js)" by simp
  have nn: "0 \<le> counts ! j" using Cons.prems by simp
  show ?case
  proof (cases "toPaletteColor cents counts j")
    case None
    then show ?thesis using ih nn by simp
  next
    case (Some x)
    then have "population x = counts ! j"
      by (auto simp: toPaletteColor_def Let_def population_makeColor split: if_splits option.splits)
    then show ?thesis using ih Some by simp
  qed
qed

lemma sum_materialize_le:
  assumes "length counts = length cents" "\<forall>x \<in> set counts. 0 \<le> x"
  shows "sum_list (map population (materialize cents counts)) \<le> sum_list counts"
proof -
  have "\<forall>i \<in> set [0..<length cents]. 0 \<le> counts ! i" using assms by simp
  then have "sum_list (map population (materialize cents counts))
      \<le> sum_list (map (\<lambda>i. counts ! i) [0..<length cents])"
    unfolding materialize_def by (rule sum_map_filter_le)
  also have "map (\<lambda>i. counts ! i) [0..<length cents] = counts"
    using assms(1) map_nth[of counts] by simp
  finally show ?thesis .
qed

lemma opaqueUpTo_all: "opaqueUpTo pixels (pixelCount pixels) = opaquePixels pixels"
  by (simp add: opaqueUpTo_def opaquePixels_def pixelCount_def)

text \<open>
  C6. For a buffer of whole pixels (fewer than \<open>2 ^ 31\<close>, so that the 32-bit counters do
  not wrap) and \<open>k \<ge> 1\<close>, the populations of the returned clusters add up to at most the
  number of pixels with an alpha of at least 128.
\<close>

theorem quantizeColors_population_sum:
  assumes "length pixels mod 4 = 0" "1 \<le> k" "length pixels div 4 < 2 ^ 31"
  shows "\<exists>cs. quantizeColors rnd pixels k = Inr cs
           \<and> sum_list (map population cs) \<le> int (opaquePixels pixels)"
proof -
  define st where "st = kMeans rnd pixels (nat k)"
  define cs where "cs = sortByPopulation (materialize (fst st) (snd (snd st)))"
  have q: "quantizeColors rnd pixels k = Inr cs"
    using assms(2) by (simp add: quantizeColors_def Let_def cs_def st_def)
  have inv: "countsInv pixels (nat k) (pixelCount pixels) (snd st)"
    unfolding st_def using assms(3) by (intro kMeans_counts) (simp add: pixelCount_def)
  have len: "length (snd (snd st)) = length (fst st)"
    using inv by (simp add: countsInv_def st_def length_kMeans)
  have nn: "\<forall>x \<in> set (snd (snd st)). 0 \<le> x" using inv by (simp add: countsInv_def)
  have "sum_list (map population cs) = sum_list (map population (materialize (fst st) (snd (snd st))))"
    by (simp add: cs_def sortByPopulation_def sum_list_sort_key)
  also have "\<dots> \<le> sum_list (snd (snd st))" by (rule sum_materialize_le[OF len nn])
  also have "\<dots> = int (opaquePixels pixels)"
    using inv assms(2) by (simp add: countsInv_def opaqueUpTo_all)
  finally show ?thesis using q by blast
qed

theorem quantizeColors_population_sum_witness:
  "length [255, 0, 0, 255, 0, 0, 255, 100 :: byte] mod 4 = 0 \<and> (1::int) \<le> 2
   \<and> length [255, 0, 0, 255, 0, 0, 255, 100 :: byte] div 4 < 2 ^ 31
   \<and> opaquePixels [255, 0, 0, 255, 0, 0, 255, 100] = 1
   \<and> (\<exists>cs. quantizeColors firstPixelRnd [255, 0, 0, 255, 0, 0, 255, 100] 2 = Inr cs
          \<and> sum_list (map population cs) \<le> 1)"
proof -
  have o: "opaquePixels [255, 0, 0, 255, 0, 0, 255, 100] = 1"
    by (simp add: opaquePixels_def upt_rec)
  show ?thesis
    using quantizeColors_population_sum[of "[255, 0, 0, 255, 0, 0, 255, 100]" 2 firstPixelRnd] o
    by simp
qed

section \<open>Order of the result\<close>

lemma map_Some_map_filter:
  "map Some (List.map_filter f xs) = map f (filter (\<lambda>x. f x \<noteq> None) xs)"
  by (induction xs) (auto split: option.splits)

text \<open>
  C5. The result is sorted by descending population, and the entries of any one population
  are in the order of their centroid indices: the result is a stable sort of the surviving
  clusters listed by increasing index.
\<close>

theorem quantizeColors_sorted_stable:
  assumes "length pixels mod 4 = 0" "0 \<le> k"
  shows "\<exists>cs js unsorted.
           quantizeColors rnd pixels k = Inr cs
         \<and> sorted_wrt (\<lambda>a b. population a \<ge> population b) cs
         \<and> sorted_wrt (<) js \<and> (\<forall>i \<in> set js. i < nat k)
         \<and> map Some unsorted =
             map (toPaletteColor (fst (kMeans rnd pixels (nat k))) (snd (snd (kMeans rnd pixels (nat k))))) js
         \<and> (\<forall>p. filter (\<lambda>c. population c = p) cs = filter (\<lambda>c. population c = p) unsorted)"
proof -
  define st where "st = kMeans rnd pixels (nat k)"
  define unsorted where "unsorted = materialize (fst st) (snd (snd st))"
  define cs where "cs = sortByPopulation unsorted"
  define js where "js = filter (\<lambda>i. toPaletteColor (fst st) (snd (snd st)) i \<noteq> None) [0..<length (fst st)]"
  have q: "quantizeColors rnd pixels k = Inr cs"
    using assms(2) by (simp add: quantizeColors_def Let_def cs_def st_def unsorted_def)
  have "sorted (map (\<lambda>c. - population c) cs)"
    unfolding cs_def sortByPopulation_def by (rule sorted_sort_key)
  then have s: "sorted_wrt (\<lambda>a b. population a \<ge> population b) cs"
    by (simp add: sorted_map)
  have j1: "sorted_wrt (<) js" unfolding js_def by (intro sorted_wrt_filter) simp
  have j2: "\<forall>i \<in> set js. i < nat k" by (simp add: js_def st_def length_kMeans)
  have m: "map Some unsorted = map (toPaletteColor (fst st) (snd (snd st))) js"
    by (simp add: unsorted_def materialize_def js_def map_Some_map_filter)
  have st: "\<forall>p. filter (\<lambda>c. population c = p) cs = filter (\<lambda>c. population c = p) unsorted"
  proof
    fix p
    have "filter (\<lambda>c. - population c = - p) (sort_key (\<lambda>c. - population c) unsorted)
        = filter (\<lambda>c. - population c = - p) unsorted"
      by (rule sort_key_stable)
    then show "filter (\<lambda>c. population c = p) cs = filter (\<lambda>c. population c = p) unsorted"
      by (simp add: cs_def sortByPopulation_def)
  qed
  show ?thesis using q s j1 j2 m st unfolding st_def by blast
qed

theorem quantizeColors_sorted_stable_witness:
  "length [255, 0, 0, 255, 0, 0, 255, 255 :: byte] mod 4 = 0 \<and> (0::int) \<le> 2
   \<and> (\<exists>cs js unsorted.
           quantizeColors firstPixelRnd [255, 0, 0, 255, 0, 0, 255, 255] 2 = Inr cs
         \<and> sorted_wrt (\<lambda>a b. population a \<ge> population b) cs
         \<and> sorted_wrt (<) js \<and> (\<forall>i \<in> set js. i < nat 2)
         \<and> map Some unsorted =
             map (toPaletteColor (fst (kMeans firstPixelRnd [255, 0, 0, 255, 0, 0, 255, 255] (nat 2)))
                    (snd (snd (kMeans firstPixelRnd [255, 0, 0, 255, 0, 0, 255, 255] (nat 2))))) js
         \<and> (\<forall>p. filter (\<lambda>c. population c = p) cs = filter (\<lambda>c. population c = p) unsorted))"
  using quantizeColors_sorted_stable[of "[255, 0, 0, 255, 0, 0, 255, 255]" 2 firstPixelRnd]
  by simp

section \<open>Hex strings of bytes\<close>

lemma Math_round_nat: "Math_round (real n) = int n"
proof -
  have "\<lfloor>real n + 1 / 2\<rfloor> = int n"
    by (rule floor_unique) simp_all
  then show ?thesis by (simp add: Math_round_def)
qed

lemma toString16_small: "n < 16 \<Longrightarrow> toString16 n = [hexDigit n]"
  by (subst toString16.simps) simp

lemma toString16_byte:
  "16 \<le> n \<Longrightarrow> n < 256 \<Longrightarrow> toString16 n = [hexDigit (n div 16), hexDigit (n mod 16)]"
  by (subst toString16.simps) (simp add: toString16_small)

lemma toHex_nat:
  assumes "n < 256"
  shows "toHex (real n) = [hexDigit (n div 16), hexDigit (n mod 16)]"
proof (cases "n < 16")
  case True
  then show ?thesis
    by (simp add: toHex_def Let_def Math_round_nat intToString16_def toString16_small hexDigit_def)
next
  case False
  then show ?thesis using assms
    by (simp add: toHex_def Let_def Math_round_nat intToString16_def toString16_byte)
qed

lemma toHex_unsigned: "toHex (unsigned (w :: byte)) = hexPair w"
proof -
  have lt: "unat w < 256" using unsigned_less[of w, where 'a = nat] by simp
  have "toHex (real (unat w)) = hexPair w"
    unfolding toHex_nat[OF lt] by (simp add: hexPair_def hexDigit_def)
  then show ?thesis by simp
qed

lemma rgbToHex_solidColor: "rgbToHex (solidColor cr cg cb) = hexEncoding cr cg cb"
  by (simp add: rgbToHex_def solidColor_def hexEncoding_def toHex_unsigned)

section \<open>Buffers of one colour\<close>

lemma length_solid: "length (solid n cr cg cb ca) = n * 4"
  by (induction n) (simp_all add: solid_def)

lemma pixelCount_solid: "pixelCount (solid n cr cg cb ca) = n"
  by (simp add: pixelCount_def length_solid)

lemma solid_nth:
  "i < n \<Longrightarrow> j < 4 \<Longrightarrow> solid n cr cg cb ca ! (i * 4 + j) = [cr, cg, cb, ca] ! j"
proof (induction n arbitrary: i)
  case 0
  then show ?case by simp
next
  case (Suc n)
  have unfold: "solid (Suc n) cr cg cb ca = [cr, cg, cb, ca] @ solid n cr cg cb ca"
    by (simp add: solid_def)
  show ?case
  proof (cases i)
    case 0
    have "j = 0 \<or> j = 1 \<or> j = 2 \<or> j = 3" using Suc.prems(2) by arith
    then show ?thesis using 0 unfolding unfold by auto
  next
    case (Suc i')
    then have "i' < n" using Suc.prems(1) by simp
    then have "solid n cr cg cb ca ! (i' * 4 + j) = [cr, cg, cb, ca] ! j"
      using Suc.IH Suc.prems(2) by simp
    moreover have "i * 4 + j = 4 + (i' * 4 + j)" using Suc by simp
    ultimately show ?thesis unfolding unfold
      by (simp only: nth_append) simp
  qed
qed

lemma solid_channels:
  assumes "i < n"
  shows "solid n cr cg cb ca ! (i * 4) = cr" "solid n cr cg cb ca ! (i * 4 + 1) = cg"
        "solid n cr cg cb ca ! (i * 4 + 2) = cb" "solid n cr cg cb ca ! (i * 4 + 3) = ca"
  using solid_nth[OF assms, of 0 cr cg cb ca] solid_nth[OF assms, of 1 cr cg cb ca]
        solid_nth[OF assms, of 2 cr cg cb ca] solid_nth[OF assms, of 3 cr cg cb ca]
  by simp_all

lemma sampleCentroid_solid:
  "sampleCentroid (solid n cr cg cb ca) (m * 4) = None
   \<or> sampleCentroid (solid n cr cg cb ca) (m * 4) = Some (solidColor cr cg cb)"
proof (cases "0 \<le> m * 4 \<and> nat (m * 4) + 2 < length (solid n cr cg cb ca)")
  case False
  then have "sampleCentroid (solid n cr cg cb ca) (m * 4) = None"
    unfolding sampleCentroid_def by (simp only: if_False)
  then show ?thesis by simp
next
  case True
  then have m: "0 \<le> m" by simp
  have n4: "nat (m * 4) = nat m * 4" using m by (simp add: nat_mult_distrib)
  have "nat m * 4 + 2 < n * 4" using True n4 by (simp add: length_solid)
  then have i: "nat m < n" by simp
  show ?thesis
    using True solid_channels[OF i, of cr cg cb ca]
    by (simp add: sampleCentroid_def n4 byteAt_def solidColor_def)
qed

lemma centsInv_initCentroids:
  "centsInv (solidColor cr cg cb) (initCentroids rnd (solid n cr cg cb ca) k)"
  using sampleCentroid_solid by (auto simp: centsInv_def initCentroids_def)

lemma initCentroids_first:
  assumes "0 < n"
  shows "initCentroids firstPixelRnd (solid n cr cg cb ca) k = replicate k (Some (solidColor cr cg cb))"
proof -
  have "2 < n * 4" using assms by simp
  then have "sampleCentroid (solid n cr cg cb ca) 0 = Some (solidColor cr cg cb)"
    using solid_channels[OF assms, of cr cg cb ca]
    by (simp add: sampleCentroid_def length_solid byteAt_def solidColor_def)
  then show ?thesis
    by (simp add: initCentroids_def firstPixelRnd_def fl_0 map_replicate_const)
qed

lemma colorDistanceSq_self: "colorDistanceSq c c = 0"
  by (simp add: colorDistanceSq_def square_def fl_0)

text \<open>The scan for the nearest centroid among undefined ones and copies of the pixel.\<close>

lemma nearest_char:
  assumes "centsInv c cents"
  shows "nearestChar c cents (nearest c cents (length cents))"
    and "0 < length cents \<Longrightarrow> nearest c cents (length cents) < length cents"
proof -
  let ?k = "length cents"
  let ?P = "\<lambda>i st. (fst st = None \<and> snd st = 0 \<and> (\<forall>j < i. cents ! j = None))
      \<or> (fst st = Some 0 \<and> snd st < i \<and> cents ! snd st = Some c \<and> (\<forall>j < snd st. cents ! j = None))"
  have P: "?P ?k (fold (nearestStep c cents) [0..<?k] (None, 0))"
  proof (rule fold_upt_invariant[where P = ?P])
    show "?P 0 (None, 0)" by simp
  next
    fix i and st :: "real option \<times> nat"
    assume i: "i < ?k" and inv: "?P i st"
    have ci: "cents ! i = None \<or> cents ! i = Some c"
      using assms i by (simp add: centsInv_def)
    show "?P (Suc i) (nearestStep c cents i st)"
    proof (cases "cents ! i")
      case None
      then have "nearestStep c cents i st = st" by (simp add: nearestStep_def)
      then show ?thesis using inv None by (auto simp: less_Suc_eq)
    next
      case (Some x)
      then have x: "cents ! i = Some c" using ci by simp
      show ?thesis
      proof (cases "fst st")
        case None
        then have "nearestStep c cents i st = (Some 0, i)"
          using x by (simp add: nearestStep_def Let_def colorDistanceSq_self)
        then show ?thesis using inv None x by simp
      next
        case (Some d)
        then have "nearestStep c cents i st = st"
          using x inv by (simp add: nearestStep_def Let_def colorDistanceSq_self)
        then show ?thesis using inv Some by (auto simp: less_Suc_eq)
      qed
    qed
  qed
  show "nearestChar c cents (nearest c cents ?k)"
    using P by (auto simp: nearest_def nearestChar_def)
  show "nearest c cents ?k < ?k" if "0 < ?k"
    using P that by (auto simp: nearest_def)
qed

lemma nearestChar_unique:
  assumes "nearestChar c cents i" "nearestChar c cents j" "i < length cents" "j < length cents"
  shows "i = j"
proof (rule ccontr)
  assume ne: "i \<noteq> j"
  have aux: "False" if "nearestChar c cents x" "nearestChar c cents y" "x < y" "y < length cents"
    for x y
  proof -
    have "cents ! x = None" using that(2,3) by (simp add: nearestChar_def)
    then have "\<forall>i < length cents. cents ! i = None" using that(1) by (simp add: nearestChar_def)
    then have "cents ! y = None" using that(4) by simp
    then show False using that(2,3) by (simp add: nearestChar_def)
  qed
  show False using ne aux[of i j] aux[of j i] assms by (cases "i < j") auto
qed

lemma nearest_update:
  assumes "centsInv c cents" "0 < length cents"
  shows "nearest c (cents[nearest c cents (length cents) := Some c]) (length cents)
         = nearest c cents (length cents)"
proof -
  let ?j = "nearest c cents (length cents)"
  let ?cents = "cents[?j := Some c]"
  have j: "?j < length cents" by (rule nearest_char(2)[OF assms])
  have inv: "centsInv c ?cents"
    using assms(1) set_update_subset_insert[of cents ?j "Some c"] by (auto simp: centsInv_def)
  have len: "length ?cents = length cents" by simp
  have "nearestChar c cents ?j" by (rule nearest_char(1)[OF assms(1)])
  then have 1: "nearestChar c ?cents ?j" using j by (simp add: nearestChar_def)
  have 2: "nearestChar c ?cents (nearest c ?cents (length cents))"
    using nearest_char(1)[OF inv] by (simp only: len)
  have 3: "nearest c ?cents (length cents) < length ?cents"
    using nearest_char(2)[OF inv] assms(2) by (simp only: len)
  show ?thesis using nearestChar_unique[OF 2 1 3] j by simp
qed


text \<open>The 32-bit counter and the sums of bytes.\<close>

lemma wrapInt32_succ: "wrapInt32 (wrapInt32 x + 1) = wrapInt32 (x + 1)"
proof -
  have "wrapInt32 x + 1 + 2 ^ 31 = (x + 2 ^ 31) mod 2 ^ 32 + 1" by (simp add: wrapInt32_def)
  then have "(wrapInt32 x + 1 + 2 ^ 31) mod 2 ^ 32 = ((x + 2 ^ 31) mod 2 ^ 32 + 1) mod 2 ^ 32"
    by (simp only:)
  also have "\<dots> = (x + 2 ^ 31 + 1) mod 2 ^ 32" by (rule mod_add_left_eq)
  also have "\<dots> = (x + 1 + 2 ^ 31) mod 2 ^ 32" by (simp add: algebra_simps)
  finally have "(wrapInt32 x + 1 + 2 ^ 31) mod 2 ^ 32 = (x + 1 + 2 ^ 31) mod 2 ^ 32" .
  then show ?thesis unfolding wrapInt32_def[of "wrapInt32 x + 1"] wrapInt32_def[of "x + 1"] by simp
qed

lemma wrapInt32_nat:
  "n < 2 ^ 31 \<Longrightarrow> wrapInt32 (int n) = int n"
  "n = 2 ^ 31 \<Longrightarrow> wrapInt32 (int n) = - (2 ^ 31)"
  by (simp_all add: wrapInt32_def)

lemma fl_byte_sum:
  assumes "i < 2 ^ 31"
  shows "fl (real i * real (unat (w :: byte)) + real (unat w)) = real (Suc i) * real (unat w)"
proof -
  have w: "unat w < 256" using unsigned_less[of w, where 'a = nat] by simp
  have "Suc i * unat w \<le> 2 ^ 31 * 256" using assms w by (intro mult_mono) simp_all
  then have "Suc i * unat w < 2 ^ 53" by simp
  then have "fl (real (Suc i * unat w)) = real (Suc i * unat w)" by (rule fl_nat)
  moreover have "real (Suc i * unat w) = real i * real (unat w) + real (unat w)"
    by (simp add: algebra_simps)
  ultimately show ?thesis by (simp add: algebra_simps)
qed

lemma fl_byte_mean:
  assumes "0 < n"
  shows "fl (real n * real (unat (w :: byte)) / real_of_int (int n)) = real (unat w)"
proof -
  have w: "unat w < 2 ^ 53" using unsigned_less[of w, where 'a = nat] by simp
  have "real n * real (unat w) / real_of_int (int n) = real (unat w)" using assms by simp
  then show ?thesis using fl_nat[OF w] by simp
qed

lemma solidColor_sel:
  "r (solidColor cr cg cb) = real (unat cr)" "g (solidColor cr cg cb) = real (unat cg)"
  "b (solidColor cr cg cb) = real (unat cb)"
  by (simp_all add: solidColor_def)

text \<open>The E-step sends every pixel to the cluster \<open>j\<close> of the scan.\<close>

lemma assignPixel_solid:
  assumes k: "0 < length cents" and ci: "centsInv (solidColor cr cg cb) cents"
    and i: "i < n" and n: "n \<le> 2 ^ 31" and op: "\<not> ca < 128"
    and inv: "solidAcc (length cents) (solidColor cr cg cb) (nearest (solidColor cr cg cb) cents (length cents)) i acc"
  shows "solidAcc (length cents) (solidColor cr cg cb) (nearest (solidColor cr cg cb) cents (length cents)) (Suc i)
           (assignPixel (solid n cr cg cb ca) (length cents) cents i acc)"
proof -
  define c where "c = solidColor cr cg cb"
  define j where "j = nearest c cents (length cents)"
  have j: "j < length cents" unfolding j_def c_def by (rule nearest_char(2)[OF ci k])
  have p: "\<lparr>r = byteAt (solid n cr cg cb ca) (i * 4), g = byteAt (solid n cr cg cb ca) (i * 4 + 1),
            b = byteAt (solid n cr cg cb ca) (i * 4 + 2)\<rparr> = c"
    using solid_channels[OF i, of cr cg cb ca] by (simp add: byteAt_def solidColor_def c_def)
  have ap: "assignPixel (solid n cr cg cb ca) (length cents) cents i acc =
      (taAdd (taAdd (taAdd (fst acc) (j * 3) (r c)) (j * 3 + 1) (g c)) (j * 3 + 2) (b c),
       taIncr (snd acc) j)"
    unfolding assignPixel_def Let_def p j_def
    using op solid_channels(4)[OF i, of cr cg cb ca] by simp
  have acc: "length (fst acc) = length cents * 3" "length (snd acc) = length cents"
    "fst acc ! (j * 3) = real i * r c" "fst acc ! (j * 3 + 1) = real i * g c"
    "fst acc ! (j * 3 + 2) = real i * b c" "snd acc ! j = wrapInt32 (int i)"
    "\<forall>j'. j' < length cents \<and> j' \<noteq> j \<longrightarrow> snd acc ! j' = 0"
    using inv unfolding solidAcc_def c_def j_def by blast+
  have l3: "j * 3 < length (fst acc)" "j * 3 + 1 < length (fst acc)" "j * 3 + 2 < length (fst acc)"
    using acc(1) j by simp_all
  have i31: "i < 2 ^ 31" using i n by simp
  have fr: "fl (real i * r c + r c) = real (Suc i) * r c"
    unfolding c_def solidColor_sel by (rule fl_byte_sum[OF i31])
  have fg: "fl (real i * g c + g c) = real (Suc i) * g c"
    unfolding c_def solidColor_sel by (rule fl_byte_sum[OF i31])
  have fb: "fl (real i * b c + b c) = real (Suc i) * b c"
    unfolding c_def solidColor_sel by (rule fl_byte_sum[OF i31])
  let ?sums = "taAdd (taAdd (taAdd (fst acc) (j * 3) (r c)) (j * 3 + 1) (g c)) (j * 3 + 2) (b c)"
  have s0: "?sums ! (j * 3) = real (Suc i) * r c"
    using l3 acc(3) fr by (simp add: taAdd_def)
  have s1: "?sums ! (j * 3 + 1) = real (Suc i) * g c"
    using l3 acc(4) fg by (simp add: taAdd_def)
  have s2: "?sums ! (j * 3 + 2) = real (Suc i) * b c"
    using l3 acc(5) fb by (simp add: taAdd_def)
  have c0: "taIncr (snd acc) j ! j = wrapInt32 (int (Suc i))"
    using acc(2,6) j wrapInt32_succ[of "int i"] by (simp add: taIncr_def add.commute)
  have cj: "\<forall>j'. j' < length cents \<and> j' \<noteq> j \<longrightarrow> taIncr (snd acc) j ! j' = 0"
    using acc(2,7) j by (simp add: taIncr_def)
  have len: "length ?sums = length cents * 3" "length (taIncr (snd acc) j) = length cents"
    using acc(1,2) by (simp_all add: length_taAdd length_taIncr)
  have "solidAcc (length cents) c j (Suc i) (?sums, taIncr (snd acc) j)"
    unfolding solidAcc_def using s0 s1 s2 c0 cj len by simp
  then show ?thesis unfolding ap c_def j_def .
qed

lemma eStep_solid:
  assumes "0 < length cents" "centsInv (solidColor cr cg cb) cents" "n \<le> 2 ^ 31" "\<not> ca < 128"
  shows "solidAcc (length cents) (solidColor cr cg cb) (nearest (solidColor cr cg cb) cents (length cents)) n
           (eStep (solid n cr cg cb ca) (length cents) cents)"
  unfolding eStep_def pixelCount_solid
proof (rule fold_upt_invariant[where P = "solidAcc (length cents) (solidColor cr cg cb) (nearest (solidColor cr cg cb) cents (length cents))"])
  have "nearest (solidColor cr cg cb) cents (length cents) < length cents"
    by (rule nearest_char(2)[OF assms(2,1)])
  then show "solidAcc (length cents) (solidColor cr cg cb) (nearest (solidColor cr cg cb) cents (length cents)) 0
      (replicate (length cents * 3) 0, replicate (length cents) 0)"
    by (simp add: solidAcc_def wrapInt32_def)
next
  fix i x
  assume "i < n" "solidAcc (length cents) (solidColor cr cg cb) (nearest (solidColor cr cg cb) cents (length cents)) i x"
  then show "solidAcc (length cents) (solidColor cr cg cb) (nearest (solidColor cr cg cb) cents (length cents)) (Suc i)
      (assignPixel (solid n cr cg cb ca) (length cents) cents i x)"
    using assms by (intro assignPixel_solid) simp_all
qed

text \<open>The M-step gives that cluster the colour, unless its counter has wrapped.\<close>

lemma mStep_solid:
  assumes j: "j < length cents" and n: "0 < n" "n \<le> 2 ^ 31"
    and acc: "solidAcc (length cents) (solidColor cr cg cb) j n acc"
  shows "mStep (length cents) (fst acc) (snd acc) cents =
           (if n < 2 ^ 31 then cents[j := Some (solidColor cr cg cb)] else cents)"
proof (rule nth_equalityI)
  show "length (mStep (length cents) (fst acc) (snd acc) cents) =
      length (if n < 2 ^ 31 then cents[j := Some (solidColor cr cg cb)] else cents)"
    by (simp add: length_mStep)
next
  fix i assume "i < length (mStep (length cents) (fst acc) (snd acc) cents)"
  then have i: "i < length cents" by (simp add: length_mStep)
  define c where "c = solidColor cr cg cb"
  have a: "fst acc ! (j * 3) = real n * r c" "fst acc ! (j * 3 + 1) = real n * g c"
    "fst acc ! (j * 3 + 2) = real n * b c" "snd acc ! j = wrapInt32 (int n)"
    "\<forall>j'. j' < length cents \<and> j' \<noteq> j \<longrightarrow> snd acc ! j' = 0"
    using acc unfolding solidAcc_def c_def by blast+
  have nth: "mStep (length cents) (fst acc) (snd acc) cents ! i =
     (if snd acc ! i > 0
      then Some \<lparr>r = fl (fst acc ! (i * 3) / real_of_int (snd acc ! i)),
                g = fl (fst acc ! (i * 3 + 1) / real_of_int (snd acc ! i)),
                b = fl (fst acc ! (i * 3 + 2) / real_of_int (snd acc ! i))\<rparr>
      else cents ! i)"
    by (rule mStep_nth) (use i in simp_all)
  show "mStep (length cents) (fst acc) (snd acc) cents ! i =
      (if n < 2 ^ 31 then cents[j := Some (solidColor cr cg cb)] else cents) ! i"
  proof (cases "i = j")
    case False
    then have "snd acc ! i = 0" using a(5) i by simp
    then show ?thesis unfolding nth using False by simp
  next
    case True
    show ?thesis
    proof (cases "n < 2 ^ 31")
      case lt: True
      then have cnt: "snd acc ! j = int n" using a(4) wrapInt32_nat(1) by simp
      have mr: "fl (real n * r c / real_of_int (int n)) = r c"
        unfolding c_def solidColor_sel by (rule fl_byte_mean[OF n(1)])
      have mg: "fl (real n * g c / real_of_int (int n)) = g c"
        unfolding c_def solidColor_sel by (rule fl_byte_mean[OF n(1)])
      have mb: "fl (real n * b c / real_of_int (int n)) = b c"
        unfolding c_def solidColor_sel by (rule fl_byte_mean[OF n(1)])
      have nthj: "mStep (length cents) (fst acc) (snd acc) cents ! j =
         (if snd acc ! j > 0
          then Some \<lparr>r = fl (fst acc ! (j * 3) / real_of_int (snd acc ! j)),
                g = fl (fst acc ! (j * 3 + 1) / real_of_int (snd acc ! j)),
                b = fl (fst acc ! (j * 3 + 2) / real_of_int (snd acc ! j))\<rparr>
          else cents ! j)"
        by (rule mStep_nth) (use j in simp_all)
      have "mStep (length cents) (fst acc) (snd acc) cents ! j = Some \<lparr>r = r c, g = g c, b = b c\<rparr>"
        unfolding nthj cnt a(1,2,3) mr mg mb using n(1) by simp
      then have "mStep (length cents) (fst acc) (snd acc) cents ! j = Some c" by simp
      then show ?thesis using True lt j by (simp add: c_def)
    next
      case ge: False
      then have "n = 2 ^ 31" using n(2) by simp
      then have "snd acc ! j = - (2 ^ 31)" using a(4) wrapInt32_nat(2) by simp
      then have "mStep (length cents) (fst acc) (snd acc) cents ! i = cents ! i"
        using nth True by simp
      then show ?thesis using ge by simp
    qed
  qed
qed


text \<open>One pass of the loop, and the passes together.\<close>

lemma iteration_solid:
  assumes k: "0 < k" and sc: "solidCents (solidColor cr cg cb) k j (fst st)"
    and n: "0 < n" "n \<le> 2 ^ 31" and op: "\<not> ca < 128"
  shows "solidCents (solidColor cr cg cb) k j (fst (iteration (solid n cr cg cb ca) k st))"
    and "solidAcc k (solidColor cr cg cb) j n (snd (iteration (solid n cr cg cb ca) k st))"
    and "n < 2 ^ 31 \<or> fst st ! j = Some (solidColor cr cg cb) \<Longrightarrow>
         fst (iteration (solid n cr cg cb ca) k st) ! j = Some (solidColor cr cg cb)"
proof -
  define c where "c = solidColor cr cg cb"
  define cents where "cents = fst st"
  define e where "e = eStep (solid n cr cg cb ca) k cents"
  have len: "length cents = k" and ci: "centsInv c cents" and nj: "nearest c cents k = j"
    using sc unfolding solidCents_def c_def cents_def by blast+
  have kpos: "0 < length cents" using k len by simp
  have j: "j < length cents" using nearest_char(2)[OF ci kpos] nj len by simp
  have acc: "solidAcc (length cents) c j n e"
    using eStep_solid[OF kpos ci[unfolded c_def] n(2) op] nj len
    by (simp add: e_def c_def)
  have it: "iteration (solid n cr cg cb ca) k st = (mStep k (fst e) (snd e) cents, e)"
    by (simp add: iteration_eq e_def cents_def)
  have ms: "mStep k (fst e) (snd e) cents = (if n < 2 ^ 31 then cents[j := Some c] else cents)"
    using mStep_solid[OF j n acc[unfolded c_def]] len by (simp add: c_def)
  have upd: "solidCents c k j (cents[j := Some c])"
  proof -
    have "centsInv c (cents[j := Some c])"
      using ci set_update_subset_insert[of cents j "Some c"] by (auto simp: centsInv_def)
    moreover have "nearest c (cents[j := Some c]) k = j"
      using nearest_update[OF ci kpos] nj len by simp
    ultimately show ?thesis using len by (simp add: solidCents_def)
  qed
  have same: "solidCents c k j cents" using len ci nj by (simp add: solidCents_def)
  show "solidCents (solidColor cr cg cb) k j (fst (iteration (solid n cr cg cb ca) k st))"
    using upd same by (simp add: it ms c_def)
  show "solidAcc k (solidColor cr cg cb) j n (snd (iteration (solid n cr cg cb ca) k st))"
    using acc len by (simp add: it c_def)
  show "fst (iteration (solid n cr cg cb ca) k st) ! j = Some (solidColor cr cg cb)"
    if "n < 2 ^ 31 \<or> fst st ! j = Some (solidColor cr cg cb)"
  proof -
    have "fst (iteration (solid n cr cg cb ca) k st) ! j
        = (if n < 2 ^ 31 then cents[j := Some c] else cents) ! j"
      by (simp add: it ms)
    then show ?thesis using that j by (auto simp: c_def cents_def)
  qed
qed

lemma funpow_iteration_solid:
  assumes k: "0 < k" and sc: "solidCents (solidColor cr cg cb) k j (fst st)"
    and n: "0 < n" "n \<le> 2 ^ 31" and op: "\<not> ca < 128"
  shows "solidCents (solidColor cr cg cb) k j (fst ((iteration (solid n cr cg cb ca) k ^^ m) st))
       \<and> (fst st ! j = Some (solidColor cr cg cb) \<longrightarrow>
            fst ((iteration (solid n cr cg cb ca) k ^^ m) st) ! j = Some (solidColor cr cg cb))"
proof (induction m)
  case 0
  show ?case using sc by simp
next
  case (Suc m)
  then have sc': "solidCents (solidColor cr cg cb) k j (fst ((iteration (solid n cr cg cb ca) k ^^ m) st))"
    by blast
  show ?case
    using iteration_solid(1)[OF k sc' n op] iteration_solid(3)[OF k sc' n op] Suc by simp
qed

lemma map_filter_append: "List.map_filter f (xs @ ys) = List.map_filter f xs @ List.map_filter f ys"
  by (induction xs) (simp_all split: option.splits)

lemma map_filter_single:
  assumes "j < k" "f j = Some y" "\<forall>i < k. i \<noteq> j \<longrightarrow> f i = None"
  shows "List.map_filter f [0..<k] = [y]"
proof -
  have "[0..<k] = [0..<j] @ j # [Suc j..<k]"
    using assms(1) by (metis le_add1 less_imp_add_positive upt_add_eq_append upt_conv_Cons zero_le add_0)
  moreover have "List.map_filter f [0..<j] = []"
    by (rule map_filter_all_None) (use assms in simp)
  moreover have "List.map_filter f [Suc j..<k] = []"
    by (rule map_filter_all_None) (use assms in simp)
  ultimately show ?thesis using assms(2) by (simp add: map_filter_append)
qed

text \<open>The result for a buffer of one opaque colour, of at most \<open>2 ^ 31\<close> pixels.\<close>

lemma quantizeColors_solid_wrap:
  assumes k: "1 \<le> k" and n: "0 < n" "n \<le> 2 ^ 31" and op: "\<not> ca < 128"
    and init: "n < 2 ^ 31 \<or>
      initCentroids rnd (solid n cr cg cb ca) (nat k) ! nearest (solidColor cr cg cb)
        (initCentroids rnd (solid n cr cg cb ca) (nat k)) (nat k) = Some (solidColor cr cg cb)"
  shows "quantizeColors rnd (solid n cr cg cb ca) k =
           Inr [makeColor (solidColor cr cg cb) (wrapInt32 (int n))]"
proof -
  define c where "c = solidColor cr cg cb"
  define pix where "pix = solid n cr cg cb ca"
  define cents0 where "cents0 = initCentroids rnd pix (nat k)"
  define j where "j = nearest c cents0 (nat k)"
  define st0 where "st0 = (cents0, replicate (nat k * 3) (0::real), replicate (nat k) (0::int))"
  define st4 where "st4 = (iteration pix (nat k) ^^ 4) st0"
  have kpos: "0 < nat k" using k by simp
  have sc0: "solidCents c (nat k) j (fst st0)"
    using centsInv_initCentroids[of cr cg cb rnd n ca "nat k"]
    by (simp add: solidCents_def st0_def cents0_def j_def c_def pix_def length_initCentroids)
  have f4: "solidCents c (nat k) j (fst st4)"
    "fst st0 ! j = Some c \<longrightarrow> fst st4 ! j = Some c"
    using funpow_iteration_solid[OF kpos sc0[unfolded c_def] n op, of 4, folded c_def pix_def]
    by (simp_all add: st4_def)
  have km: "kMeans rnd pix (nat k) = iteration pix (nat k) st4"
    unfolding kMeans_def maxIterations_def st4_def st0_def cents0_def by (simp add: eval_nat_numeral)
  note fin = iteration_solid[OF kpos f4(1)[unfolded c_def] n op, folded c_def pix_def]
  have sc5: "solidCents c (nat k) j (fst (kMeans rnd pix (nat k)))"
    using fin(1) by (simp add: km)
  have acc: "solidAcc (nat k) c j n (snd (kMeans rnd pix (nat k)))"
    using fin(2) by (simp add: km)
  have "n < 2 ^ 31 \<or> fst st4 ! j = Some c"
    using init f4(2) by (auto simp: st0_def cents0_def j_def c_def pix_def)
  then have cj: "fst (kMeans rnd pix (nat k)) ! j = Some c"
    using fin(3) by (simp add: km)
  have len: "length (fst (kMeans rnd pix (nat k))) = nat k" by (rule length_kMeans)
  have ci5: "centsInv c (fst (kMeans rnd pix (nat k)))"
    and n5: "nearest c (fst (kMeans rnd pix (nat k))) (nat k) = j"
    using sc5 unfolding solidCents_def by blast+
  have jk: "j < nat k"
    using nearest_char(2)[OF ci5] len n5 kpos by simp
  have cnt: "snd (snd (kMeans rnd pix (nat k))) ! j = wrapInt32 (int n)"
    "\<forall>j'. j' < nat k \<and> j' \<noteq> j \<longrightarrow> snd (snd (kMeans rnd pix (nat k))) ! j' = 0"
    using acc unfolding solidAcc_def by blast+
  have nz: "wrapInt32 (int n) \<noteq> 0"
    using n wrapInt32_nat[of n] by (cases "n < 2 ^ 31") auto
  have "materialize (fst (kMeans rnd pix (nat k))) (snd (snd (kMeans rnd pix (nat k))))
      = [makeColor c (wrapInt32 (int n))]"
    unfolding materialize_def len
  proof (rule map_filter_single[OF jk])
    show "toPaletteColor (fst (kMeans rnd pix (nat k))) (snd (snd (kMeans rnd pix (nat k)))) j
        = Some (makeColor c (wrapInt32 (int n)))"
      using cnt(1) cj nz by (simp add: toPaletteColor_def)
    show "\<forall>i < nat k. i \<noteq> j \<longrightarrow>
        toPaletteColor (fst (kMeans rnd pix (nat k))) (snd (snd (kMeans rnd pix (nat k)))) i = None"
      using cnt(2) by (simp add: toPaletteColor_def)
  qed
  then show ?thesis
    using k by (simp add: quantizeColors_def Let_def sortByPopulation_def c_def pix_def)
qed

lemma quantizeColors_solid:
  assumes "1 \<le> k" "0 < n" "n < 2 ^ 31" "\<not> ca < 128"
  shows "quantizeColors rnd (solid n cr cg cb ca) k = Inr [makeColor (solidColor cr cg cb) (int n)]"
  using quantizeColors_solid_wrap[of k n ca rnd cr cg cb] assms wrapInt32_nat(1)[of n] by simp

lemma quantizeColors_solid_overflow:
  assumes "1 \<le> k" "\<not> ca < 128"
  shows "quantizeColors firstPixelRnd (solid (2 ^ 31) cr cg cb ca) k =
           Inr [makeColor (solidColor cr cg cb) (- (2 ^ 31))]"
proof -
  let ?cents = "initCentroids firstPixelRnd (solid (2 ^ 31) cr cg cb ca) (nat k)"
  let ?c = "solidColor cr cg cb"
  have rep: "?cents = replicate (nat k) (Some ?c)" by (rule initCentroids_first) simp
  have "centsInv ?c ?cents" by (rule centsInv_initCentroids)
  then have "nearest ?c ?cents (length ?cents) < length ?cents"
    using assms(1) by (intro nearest_char(2)) (simp_all add: length_initCentroids)
  then have "nearest ?c ?cents (nat k) < nat k" by (simp add: length_initCentroids)
  then have "?cents ! nearest ?c ?cents (nat k) = Some ?c" unfolding rep by simp
  then show ?thesis
    using quantizeColors_solid_wrap[of k "2 ^ 31" ca firstPixelRnd cr cg cb] assms
      wrapInt32_nat(2)[of "2 ^ 31"]
    by simp
qed

section \<open>Single-colour images\<close>

text \<open>
  C1, as stated, fails for a buffer of \<open>2 ^ 31\<close> opaque pixels of one colour: the 32-bit
  counter of the cluster wraps, and the only entry of the result has the population
  \<open>- 2147483648\<close>, which is below 1.
\<close>

theorem population_overflow_counterexample:
  "length (solid (2 ^ 31) 255 0 0 255) mod 4 = 0
   \<and> quantizeColors firstPixelRnd (solid (2 ^ 31) 255 0 0 255) 1
       = Inr [makeColor (solidColor 255 0 0) (- 2147483648)]
   \<and> population (makeColor (solidColor 255 0 0) (- 2147483648)) < 1"
  using quantizeColors_solid_overflow[of 1 255 255 0 0]
  by (simp add: length_solid population_makeColor)

text \<open>
  C2, as stated, fails for \<open>N = 2 ^ 31\<close>: the population of the only cluster is
  \<open>- 2147483648\<close>, not \<open>N\<close>.
\<close>

theorem single_color_overflow_counterexample:
  "(1 :: nat) \<le> 2 ^ 31 \<and> (1 :: int) \<le> 8
   \<and> quantizeColors firstPixelRnd (solid (2 ^ 31) 0 0 255 255) 8
       = Inr [makeColor (solidColor 0 0 255) (- 2147483648)]
   \<and> population (makeColor (solidColor 0 0 255) (- 2147483648)) \<noteq> 2 ^ 31"
  using quantizeColors_solid_overflow[of 8 255 0 0 255]
  by (simp add: population_makeColor)

text \<open>
  C2, amended: for \<open>1 \<le> N < 2 ^ 31\<close> identical fully opaque pixels and \<open>k \<ge> 1\<close>,
  \<open>quantizeColors\<close> returns exactly one cluster, whatever the random source; its
  population is \<open>N\<close> and its \<open>hex\<close> is the lowercase hex encoding of the colour.
\<close>

theorem single_color_round_trip:
  assumes "1 \<le> N" "1 \<le> k" "N < 2 ^ 31"
  shows "\<exists>c. quantizeColors rnd (solid N cr cg cb 255) k = Inr [c]
           \<and> population c = int N \<and> hex c = hexEncoding cr cg cb"
proof -
  have n: "0 < N" using assms(1) by simp
  have op: "\<not> (255 :: byte) < 128" by simp
  have "quantizeColors rnd (solid N cr cg cb 255) k = Inr [makeColor (solidColor cr cg cb) (int N)]"
    by (rule quantizeColors_solid[OF assms(2) n assms(3) op])
  moreover have "hex (makeColor (solidColor cr cg cb) (int N)) = hexEncoding cr cg cb"
    by (simp add: makeColor_def Let_def rgbToHex_solidColor)
  ultimately show ?thesis by (simp add: population_makeColor)
qed

theorem single_color_round_trip_witness:
  "(1::nat) \<le> 100 \<and> (1::int) \<le> 8 \<and> (100::nat) < 2 ^ 31
   \<and> (\<exists>c. quantizeColors firstPixelRnd (solid 100 255 0 0 255) 8 = Inr [c]
          \<and> population c = 100 \<and> hex c = ''#ff0000'')"
proof -
  have h: "hexEncoding 255 0 0 = ''#ff0000''" by (simp add: hexEncoding_def hexPair_def)
  show ?thesis
    using single_color_round_trip[of 100 8 firstPixelRnd 255 0 0] h by simp
qed

section \<open>The colours of a result\<close>

lemma byteAt_range: "0 \<le> byteAt pixels i \<and> byteAt pixels i \<le> 255"
proof -
  have "unat (pixels ! i) < 256" using unsigned_less[of "pixels ! i", where 'a = nat] by simp
  then have "unat (pixels ! i) \<le> 255" by simp
  then have "real (unat (pixels ! i)) \<le> real 255" by (simp only: of_nat_le_iff)
  also have "real 255 = 255" by simp
  finally have 1: "byteAt pixels i \<le> 255" unfolding byteAt_def .
  have 2: "0 \<le> byteAt pixels i" unfolding byteAt_def by (rule of_nat_0_le_iff)
  show ?thesis using 2 1 by (rule conjI)
qed

lemma fl_sum_bound:
  assumes "0 \<le> x" "x \<le> 255 * real_of_int n" "0 \<le> v" "v \<le> 255" "0 \<le> n" "n < 2 ^ 31"
  shows "0 \<le> fl (x + v) \<and> fl (x + v) \<le> 255 * real_of_int (n + 1)"
proof -
  have 1: "0 \<le> fl (x + v)" using assms(1,3) by (intro fl_nonneg) simp
  have "x + v \<le> real_of_int (255 * (n + 1))" using assms(2,4) by simp
  moreover have "\<bar>255 * (n + 1)\<bar> < 2 ^ 53" using assms(5,6) by simp
  ultimately have "fl (x + v) \<le> real_of_int (255 * (n + 1))" by (rule fl_le_int)
  then show ?thesis using 1 by simp
qed

lemma taAdd3_nth:
  assumes "ci * 3 + 2 < length xs" "m < length xs"
  shows "taAdd (taAdd (taAdd xs (ci * 3) x0) (ci * 3 + 1) x1) (ci * 3 + 2) x2 ! m =
     (if m = ci * 3 then fl (xs ! m + x0)
      else if m = ci * 3 + 1 then fl (xs ! m + x1)
      else if m = ci * 3 + 2 then fl (xs ! m + x2) else xs ! m)"
  using assms by (simp add: taAdd_def)

lemma assignPixel_sumsInv:
  assumes bound: "pixelCount pixels < 2 ^ 31" and i: "i < pixelCount pixels"
    and cinv: "countsInv pixels k i acc" and sinv: "sumsInv k acc"
  shows "sumsInv k (assignPixel pixels k cents i acc)"
proof (cases "pixels ! (i * 4 + 3) < 128")
  case True
  then show ?thesis using sinv by (simp add: assignPixel_def Let_def)
next
  case False
  define p where "p = \<lparr>r = byteAt pixels (i * 4), g = byteAt pixels (i * 4 + 1), b = byteAt pixels (i * 4 + 2)\<rparr>"
  define ci where "ci = nearest p cents k"
  define xs where "xs = fst acc"
  define cn where "cn = snd acc"
  let ?xs' = "taAdd (taAdd (taAdd xs (ci * 3) (r p)) (ci * 3 + 1) (g p)) (ci * 3 + 2) (b p)"
  have ap: "assignPixel pixels k cents i acc = (?xs', taIncr cn ci)"
    using False by (simp add: assignPixel_def Let_def p_def ci_def xs_def cn_def)
  have lx: "length xs = k * 3" using sinv by (simp add: sumsInv_def xs_def)
  have lc: "length cn = k" and nn: "\<forall>x \<in> set cn. 0 \<le> x"
    and sm: "sum_list cn = (if k = 0 then 0 else int (opaqueUpTo pixels i))"
    using cinv by (simp_all add: countsInv_def cn_def)
  have old: "\<And>j ch. j < k \<Longrightarrow> ch < 3 \<Longrightarrow> 0 \<le> xs ! (j * 3 + ch) \<and> xs ! (j * 3 + ch) \<le> 255 * real_of_int (cn ! j)"
    using sinv by (simp add: sumsInv_def xs_def cn_def)
  have lx': "length ?xs' = k * 3" using lx by (simp add: length_taAdd)
  have pr: "0 \<le> r p \<and> r p \<le> 255" "0 \<le> g p \<and> g p \<le> 255" "0 \<le> b p \<and> b p \<le> 255"
    using byteAt_range by (simp_all add: p_def)
  have "\<forall>j < k. \<forall>ch < 3. 0 \<le> ?xs' ! (j * 3 + ch) \<and> ?xs' ! (j * 3 + ch) \<le> 255 * real_of_int (taIncr cn ci ! j)"
  proof (intro allI impI)
    fix j ch :: nat
    assume j: "j < k" and ch: "ch < 3"
    then have kpos: "0 < k" by simp
    have cik: "ci < k" unfolding ci_def by (rule nearest_less[OF kpos])
    have l2: "ci * 3 + 2 < length xs" using cik lx by simp
    have m: "j * 3 + ch < length xs" using j ch lx by simp
    have cge: "0 \<le> cn ! ci" using nn cik lc by simp
    have "cn ! ci \<le> sum_list cn" using nth_le_sum_list[OF nn] cik lc by simp
    also have "\<dots> = int (opaqueUpTo pixels i)" using sm kpos by simp
    also have "\<dots> \<le> int i" using opaqueUpTo_le[of pixels i] by simp
    finally have cle: "cn ! ci \<le> int i" .
    have i31: "int i + 1 < 2 ^ 31" using i bound by simp
    have w: "wrapInt32 (cn ! ci + 1) = cn ! ci + 1"
      using cle cge i31 by (intro wrapInt32_id) simp_all
    have inc: "taIncr cn ci = cn[ci := cn ! ci + 1]" using cik lc w by (simp add: taIncr_def)
    have c31: "cn ! ci < 2 ^ 31" using cle i31 by simp
    show "0 \<le> ?xs' ! (j * 3 + ch) \<and> ?xs' ! (j * 3 + ch) \<le> 255 * real_of_int (taIncr cn ci ! j)"
    proof (cases "j = ci")
      case True
      have cnt: "taIncr cn ci ! j = cn ! ci + 1" using True inc cik lc by simp
      have "ch = 0 \<or> ch = 1 \<or> ch = 2" using ch by arith
      then show ?thesis
      proof (elim disjE)
        assume c0: "ch = 0"
        have "?xs' ! (ci * 3) = fl (xs ! (ci * 3) + r p)" using taAdd3_nth[OF l2, of "ci * 3"] l2 by simp
        moreover have "0 \<le> fl (xs ! (ci * 3) + r p) \<and> fl (xs ! (ci * 3) + r p) \<le> 255 * real_of_int (cn ! ci + 1)"
          using old[OF cik, of 0] pr(1) cge c31 by (intro fl_sum_bound) simp_all
        ultimately show ?thesis using True c0 cnt by simp
      next
        assume c1: "ch = 1"
        have "?xs' ! (ci * 3 + 1) = fl (xs ! (ci * 3 + 1) + g p)" using taAdd3_nth[OF l2, of "ci * 3 + 1"] l2 by simp
        moreover have "0 \<le> fl (xs ! (ci * 3 + 1) + g p) \<and> fl (xs ! (ci * 3 + 1) + g p) \<le> 255 * real_of_int (cn ! ci + 1)"
          using old[OF cik, of 1] pr(2) cge c31 by (intro fl_sum_bound) simp_all
        ultimately show ?thesis using True c1 cnt by simp
      next
        assume c2: "ch = 2"
        have "?xs' ! (ci * 3 + 2) = fl (xs ! (ci * 3 + 2) + b p)" using taAdd3_nth[OF l2, of "ci * 3 + 2"] l2 by simp
        moreover have "0 \<le> fl (xs ! (ci * 3 + 2) + b p) \<and> fl (xs ! (ci * 3 + 2) + b p) \<le> 255 * real_of_int (cn ! ci + 1)"
          using old[OF cik, of 2] pr(3) cge c31 by (intro fl_sum_bound) simp_all
        ultimately show ?thesis using True c2 cnt by simp
      qed
    next
      case False
      have ne: "j * 3 + ch \<noteq> ci * 3" "j * 3 + ch \<noteq> ci * 3 + 1" "j * 3 + ch \<noteq> ci * 3 + 2"
        using False ch by arith+
      have "?xs' ! (j * 3 + ch) = xs ! (j * 3 + ch)" using taAdd3_nth[OF l2 m] ne by simp
      moreover have "taIncr cn ci ! j = cn ! j" using False inc by simp
      ultimately show ?thesis using old[OF j ch] by simp
    qed
  qed
  then show ?thesis unfolding ap sumsInv_def using lx' by simp
qed

lemma eStep_sumsInv:
  assumes "pixelCount pixels < 2 ^ 31"
  shows "sumsInv k (eStep pixels k cents)"
proof -
  have "countsInv pixels k (pixelCount pixels) (eStep pixels k cents) \<and> sumsInv k (eStep pixels k cents)"
    unfolding eStep_def
  proof (rule fold_upt_invariant[where P = "\<lambda>i acc. countsInv pixels k i acc \<and> sumsInv k acc"])
    show "countsInv pixels k 0 (replicate (k * 3) 0, replicate k 0) \<and> sumsInv k (replicate (k * 3) 0, replicate k 0)"
      by (simp add: countsInv_def opaqueUpTo_0 sum_list_replicate sumsInv_def)
  next
    fix i x
    assume "i < pixelCount pixels" "countsInv pixels k i x \<and> sumsInv k x"
    then show "countsInv pixels k (Suc i) (assignPixel pixels k cents i x) \<and> sumsInv k (assignPixel pixels k cents i x)"
      using assignPixel_countsInv[OF assms] assignPixel_sumsInv[OF assms] by simp
  qed
  then show ?thesis by simp
qed

lemma fl_mean_range:
  assumes "0 \<le> x" "x \<le> 255 * real_of_int n" "0 < n"
  shows "0 \<le> fl (x / real_of_int n) \<and> fl (x / real_of_int n) \<le> 255"
proof -
  have 1: "0 \<le> fl (x / real_of_int n)" using assms(1,3) by (intro fl_nonneg) simp
  have "x / real_of_int n \<le> real_of_int 255" using assms(2,3) by (simp add: divide_le_eq mult.commute)
  then have "fl (x / real_of_int n) \<le> real_of_int 255" by (rule fl_le_int) simp
  then show ?thesis using 1 by simp
qed

text \<open>
  A cluster that has pixels after the last pass has the means of the last M-step as its
  centroid, and they are in \<open>[0, 255]\<close>.
\<close>

lemma kMeans_centroid_range:
  assumes "pixelCount pixels < 2 ^ 31" "i < k" "snd (snd (kMeans rnd pixels k)) ! i \<noteq> 0"
    and "fst (kMeans rnd pixels k) ! i = Some c"
  shows "0 \<le> r c \<and> r c \<le> 255 \<and> 0 \<le> g c \<and> g c \<le> 255 \<and> 0 \<le> b c \<and> b c \<le> 255"
proof -
  obtain cents where len: "length cents = k"
    and km: "kMeans rnd pixels k =
       (mStep k (fst (eStep pixels k cents)) (snd (eStep pixels k cents)) cents, eStep pixels k cents)"
    using kMeans_last by blast
  define xs where "xs = fst (eStep pixels k cents)"
  define cn where "cn = snd (eStep pixels k cents)"
  have inv: "countsInv pixels k (pixelCount pixels) (eStep pixels k cents)"
    by (rule eStep_countsInv[OF assms(1)])
  then have "0 \<le> cn ! i" using assms(2) by (simp add: countsInv_def cn_def)
  then have pos: "0 < cn ! i" using assms(3) km by (simp add: cn_def)
  have sinv: "sumsInv k (eStep pixels k cents)" by (rule eStep_sumsInv[OF assms(1)])
  have rng: "\<And>ch. ch < 3 \<Longrightarrow> 0 \<le> xs ! (i * 3 + ch) \<and> xs ! (i * 3 + ch) \<le> 255 * real_of_int (cn ! i)"
    using sinv assms(2) by (simp add: sumsInv_def xs_def cn_def)
  have "fst (kMeans rnd pixels k) ! i = mStep k xs cn cents ! i" using km by (simp add: xs_def cn_def)
  also have "\<dots> = Some \<lparr>r = fl (xs ! (i * 3) / real_of_int (cn ! i)),
                g = fl (xs ! (i * 3 + 1) / real_of_int (cn ! i)),
                b = fl (xs ! (i * 3 + 2) / real_of_int (cn ! i))\<rparr>"
    using mStep_nth[OF len assms(2)] pos by simp
  finally have c: "c = \<lparr>r = fl (xs ! (i * 3) / real_of_int (cn ! i)),
                g = fl (xs ! (i * 3 + 1) / real_of_int (cn ! i)),
                b = fl (xs ! (i * 3 + 2) / real_of_int (cn ! i))\<rparr>"
    using assms(4) by simp
  show ?thesis
    unfolding c using fl_mean_range[OF _ _ pos] rng[of 0] rng[of 1] rng[of 2] by simp
qed

lemma isDouble_0: "isDouble 0"
  by (simp add: isDouble_def fl_0)

lemma isDouble_rgbToHsl: "isDouble (s (rgbToHsl c)) \<and> isDouble (l (rgbToHsl c))"
proof -
  have "isDouble (l (rgbToHsl c))" by (simp add: rgbToHsl_l isDouble_fl)
  moreover have "isDouble (s (rgbToHsl c))"
  proof (cases "normMax c = normMin c")
    case True
    then show ?thesis using rgbToHsl_achromatic[of c] isDouble_0 by simp
  next
    case False
    show ?thesis unfolding rgbToHsl_s[OF False] by (simp add: isDouble_fl)
  qed
  ultimately show ?thesis by simp
qed

text \<open>
  The entries of a result, for a buffer of fewer than \<open>2 ^ 31\<close> pixels: the population is
  at least 1, the saturation and the lightness are binary64 numbers in \<open>[0, 1]\<close>.
\<close>

lemma quantizeColors_entries:
  assumes "length pixels div 4 < 2 ^ 31" "quantizeColors rnd pixels k = Inr colors" "c \<in> set colors"
  shows "1 \<le> population c \<and> 0 \<le> s (hsl c) \<and> s (hsl c) \<le> 1 \<and> 0 \<le> l (hsl c) \<and> l (hsl c) \<le> 1
       \<and> isDouble (s (hsl c)) \<and> isDouble (l (hsl c))"
proof -
  define st where "st = kMeans rnd pixels (nat k)"
  have b: "pixelCount pixels < 2 ^ 31" using assms(1) by (simp add: pixelCount_def)
  have "colors = sortByPopulation (materialize (fst st) (snd (snd st)))"
    using assms(2) by (simp add: quantizeColors_def Let_def st_def split: if_splits)
  then have "c \<in> set (materialize (fst st) (snd (snd st)))"
    using assms(3) by (simp add: sortByPopulation_def)
  then obtain i c0 where i: "i < length (fst st)" and nz: "snd (snd st) ! i \<noteq> 0"
    and c0: "fst st ! i = Some c0" and c: "c = makeColor c0 (snd (snd st) ! i)"
    using materialize_elem by blast
  have ik: "i < nat k" using i by (simp add: st_def length_kMeans)
  have inv: "countsInv pixels (nat k) (pixelCount pixels) (snd st)"
    unfolding st_def by (rule kMeans_counts[OF b])
  then have "0 \<le> snd (snd st) ! i" using ik by (simp add: countsInv_def)
  then have pop: "1 \<le> population c" using nz c by (simp add: population_makeColor)
  have rng: "0 \<le> r c0 \<and> r c0 \<le> 255 \<and> 0 \<le> g c0 \<and> g c0 \<le> 255 \<and> 0 \<le> b c0 \<and> b c0 \<le> 255"
    using kMeans_centroid_range[OF b ik, of rnd c0] nz c0 by (simp add: st_def)
  then have nr: "0 \<le> normMin c0" "normMax c0 \<le> 1" "normMin c0 \<le> normMax c0"
    using norm_range[of c0] by simp_all
  have h: "hsl c = rgbToHsl c0" by (simp add: c makeColor_def Let_def)
  show ?thesis
    unfolding h using pop s_range[OF nr] l_range[OF nr] isDouble_rgbToHsl[of c0] by simp
qed

section \<open>The vibrant role\<close>

lemma roleStep_vibrant:
  "bestVibrant (roleStep dmn c st) =
     (if vibrantEligible c \<and> vibrantScore dmn c > maxVibrantScore st then Some c else bestVibrant st)
   \<and> maxVibrantScore (roleStep dmn c st) =
     (if vibrantEligible c \<and> vibrantScore dmn c > maxVibrantScore st then vibrantScore dmn c
      else maxVibrantScore st)"
proof -
  define st1 where "st1 = (if vibrantEligible c \<and> vibrantScore dmn c > maxVibrantScore st
                then st\<lparr>maxVibrantScore := vibrantScore dmn c, bestVibrant := Some c\<rparr> else st)"
  define st2 where "st2 = (if l (hsl c) < fl (4 / 10) \<and> s (hsl c) > fl (2 / 10) \<and> morePopulated (curDarkVibrant st1) c
                then st1\<lparr>curDarkVibrant := Some c\<rparr> else st1)"
  define st3 where "st3 = (if l (hsl c) > fl (7 / 10) \<and> s (hsl c) > fl (2 / 10) \<and> morePopulated (curLightVibrant st2) c
                then st2\<lparr>curLightVibrant := Some c\<rparr> else st2)"
  have rs: "roleStep dmn c st =
      (if s (hsl c) < fl (3 / 10) \<and> l (hsl c) > fl (2 / 10) \<and> l (hsl c) < fl (8 / 10) \<and> morePopulated (curMuted st3) c
        then st3\<lparr>curMuted := Some c\<rparr> else st3)"
    unfolding roleStep_def Let_def st1_def st2_def st3_def ..
  have 3: "bestVibrant (roleStep dmn c st) = bestVibrant st3"
          "maxVibrantScore (roleStep dmn c st) = maxVibrantScore st3"
    unfolding rs by simp_all
  have 2: "bestVibrant st3 = bestVibrant st2" "maxVibrantScore st3 = maxVibrantScore st2"
    unfolding st3_def by simp_all
  have 1: "bestVibrant st2 = bestVibrant st1" "maxVibrantScore st2 = maxVibrantScore st1"
    unfolding st2_def by simp_all
  show ?thesis unfolding 3 2 1 unfolding st1_def by simp
qed

lemma roleStep_bestVibrant:
  "bestVibrant (roleStep dmn c st) =
     (if vibrantEligible c \<and> vibrantScore dmn c > maxVibrantScore st then Some c else bestVibrant st)"
  using roleStep_vibrant by blast





section \<open>Selection of the vibrant colour\<close>


lemma fl_3_10_nonneg: "0 \<le> fl (3 / 10)"
  by (intro fl_nonneg) simp

lemma vibrantScore_pos:
  assumes "vibrantEligible c" "0 \<le> popRatio dmn c"
  shows "- 1 < vibrantScore dmn c"
proof -
  have sat: "0 \<le> s (hsl c)" using assms(1) fl_3_10_nonneg by (simp add: vibrantEligible_def)
  have "0 \<le> fl (popRatio dmn c * (1 / 2))" using assms(2) by (intro fl_nonneg) simp
  then have "0 \<le> fl (1 + fl (popRatio dmn c * (1 / 2)))" by (intro fl_nonneg) simp
  then have "0 \<le> s (hsl c) * fl (1 + fl (popRatio dmn c * (1 / 2)))" using sat by simp
  then have "0 \<le> vibrantScore dmn c" unfolding vibrantScore_def by (rule fl_nonneg)
  then show ?thesis by simp
qed


lemma classify_Cons:
  "classify (d # rest) =
     Inr \<lparr>dominant = d,
          vibrant = Some (case bestVibrant (fold (roleStep d) (d # rest) initRoles) of
                            Some v \<Rightarrow> v
                          | None \<Rightarrow> (if isVibrant d then d else (case rest of [] \<Rightarrow> d | second # _ \<Rightarrow> second))),
          muted = curMuted (fold (roleStep d) (d # rest) initRoles),
          darkVibrant = curDarkVibrant (fold (roleStep d) (d # rest) initRoles),
          lightVibrant = curLightVibrant (fold (roleStep d) (d # rest) initRoles),
          allColors = d # rest\<rparr>"
  by (simp add: classify_def Let_def)

lemma second_or_dominant:
  "(case rest of [] \<Rightarrow> d | second # _ \<Rightarrow> second) =
     (if 1 < length (d # rest) then (d # rest) ! 1 else hd (d # rest))"
  by (cases rest) simp_all


text \<open>The saturation and the lightness of a grey, of the red and of the orange.\<close>

lemma grey_hsl:
  "s (rgbToHsl \<lparr>r = x, g = x, b = x\<rparr>) = 0" "isDouble (l (rgbToHsl \<lparr>r = x, g = x, b = x\<rparr>))"
proof -
  have "normMax \<lparr>r = x, g = x, b = x\<rparr> = normMin \<lparr>r = x, g = x, b = x\<rparr>"
    by (simp add: normMax_def normMin_def)
  then show "s (rgbToHsl \<lparr>r = x, g = x, b = x\<rparr>) = 0" using rgbToHsl_achromatic by blast
  show "isDouble (l (rgbToHsl \<lparr>r = x, g = x, b = x\<rparr>))" by (simp add: rgbToHsl_l isDouble_fl)
qed

































section \<open>The fallback of the vibrant role\<close>

lemma makeColor_isVibrant:
  "isVibrant (makeColor c n) \<longleftrightarrow>
     s (hsl (makeColor c n)) > 1 / 2 \<and> l (hsl (makeColor c n)) > fl (3 / 10)
       \<and> l (hsl (makeColor c n)) < fl (8 / 10)"
  by (simp add: makeColor_def Let_def)

lemma quantizeColors_elem:
  assumes "quantizeColors rnd pixels k = Inr colors" "c \<in> set colors"
  shows "\<exists>c0 n. c = makeColor c0 n"
proof -
  have "colors = sortByPopulation (materialize (fst (kMeans rnd pixels (nat k))) (snd (snd (kMeans rnd pixels (nat k)))))"
    using assms(1) by (simp add: quantizeColors_def Let_def split: if_splits)
  then have "c \<in> set (materialize (fst (kMeans rnd pixels (nat k))) (snd (snd (kMeans rnd pixels (nat k)))))"
    using assms(2) by (simp add: sortByPopulation_def)
  then show ?thesis using materialize_elem by blast
qed

lemma isVibrant_eligible:
  assumes "quantizeColors rnd pixels k = Inr colors" "c \<in> set colors" "isVibrant c"
  shows "vibrantEligible c \<and> 1 / 2 < s (hsl c)"
proof -
  obtain c0 n where "c = makeColor c0 n" using quantizeColors_elem[OF assms(1,2)] by blast
  moreover have "fl (3 / 10) \<le> 1 / 2" using fl_mono[of "3 / 10" "1 / 2"] by (simp add: fl_half)
  ultimately show ?thesis
    using assms(3) makeColor_isVibrant[of c0 n] by (simp add: vibrantEligible_def)
qed

lemma popRatio_self: "popRatio d d = 0 \<or> popRatio d d = 1"
  by (simp add: popRatio_def fl_0 fl_1)

lemma bestVibrant_stays:
  "bestVibrant st \<noteq> None \<Longrightarrow> bestVibrant (fold (roleStep d) xs st) \<noteq> None"
  by (induction xs arbitrary: st) (simp_all add: roleStep_bestVibrant)

lemma fold_no_eligible:
  "\<forall>c \<in> set xs. \<not> vibrantEligible c \<Longrightarrow> bestVibrant (fold (roleStep d) xs st) = bestVibrant st"
  by (induction xs arbitrary: st) (simp_all add: roleStep_bestVibrant)

text \<open>
  C10. On a non-empty result of \<open>quantizeColors\<close>: when no entry passes the eligibility
  test of the role selection, the dominant entry is not flagged \<open>isVibrant\<close> and the vibrant
  role is the second entry when there is one, else the dominant one; and whenever the
  loop of the role selection ends without a \<open>bestVibrant\<close>, the dominant entry is not
  flagged \<open>isVibrant\<close>, so the fallback never takes its first branch.
\<close>

theorem vibrant_fallback_unreachable:
  assumes "length pixels mod 4 = 0" "quantizeColors rnd pixels k = Inr colors" "colors \<noteq> []"
  shows "((\<forall>c \<in> set colors. \<not> vibrantEligible c) \<longrightarrow>
            \<not> isVibrant (hd colors)
          \<and> (\<exists>pal. classify colors = Inr pal
                \<and> vibrant pal = Some (if 1 < length colors then colors ! 1 else hd colors)))
       \<and> (bestVibrant (fold (roleStep (hd colors)) colors initRoles) = None \<longrightarrow> \<not> isVibrant (hd colors))"
proof -
  obtain d rest where cs: "colors = d # rest" using assms(3) by (cases colors) auto
  have d: "d \<in> set colors" by (simp add: cs)
  have 1: "(\<forall>c \<in> set colors. \<not> vibrantEligible c) \<longrightarrow>
            \<not> isVibrant (hd colors)
          \<and> (\<exists>pal. classify colors = Inr pal
                \<and> vibrant pal = Some (if 1 < length colors then colors ! 1 else hd colors))"
  proof
    assume none: "\<forall>c \<in> set colors. \<not> vibrantEligible c"
    then have nv: "\<not> isVibrant d" using isVibrant_eligible[OF assms(2) d] d by blast
    have "bestVibrant (fold (roleStep d) (d # rest) initRoles) = None"
      using fold_no_eligible[of "d # rest" d initRoles] none cs by (simp add: initRoles_def)
    then have "\<exists>pal. classify (d # rest) = Inr pal
                \<and> vibrant pal = Some (if 1 < length (d # rest) then (d # rest) ! 1 else hd (d # rest))"
      unfolding classify_Cons using nv second_or_dominant[of d rest] by simp
    moreover have "\<not> isVibrant (hd (d # rest))" using nv by simp
    ultimately show "\<not> isVibrant (hd colors)
          \<and> (\<exists>pal. classify colors = Inr pal
                \<and> vibrant pal = Some (if 1 < length colors then colors ! 1 else hd colors))"
      unfolding cs by blast
  qed
  have 2: "bestVibrant (fold (roleStep (hd colors)) colors initRoles) = None \<longrightarrow> \<not> isVibrant (hd colors)"
  proof (rule impI, rule notI)
    assume none: "bestVibrant (fold (roleStep (hd colors)) colors initRoles) = None"
      and "isVibrant (hd colors)"
    then have v: "isVibrant d" by (simp add: cs)
    have e: "vibrantEligible d" "1 / 2 < s (hsl d)" using isVibrant_eligible[OF assms(2) d v] by simp_all
    have "0 \<le> popRatio d d" using popRatio_self[of d] by auto
    then have "- 1 < vibrantScore d d" using vibrantScore_pos[OF e(1)] by simp
    then have "bestVibrant (roleStep d d initRoles) = Some d"
      using e(1) by (simp add: roleStep_bestVibrant initRoles_def)
    then have "bestVibrant (fold (roleStep d) rest (roleStep d d initRoles)) \<noteq> None"
      by (intro bestVibrant_stays) simp
    then show False using none by (simp add: cs)
  qed
  show ?thesis using 1 2 by blast
qed

theorem vibrant_fallback_unreachable_witness:
  "length [128, 128, 128, 255 :: byte] mod 4 = 0
   \<and> quantizeColors firstPixelRnd [128, 128, 128, 255] 1 = Inr [makeColor (solidColor 128 128 128) 1]
   \<and> [makeColor (solidColor 128 128 128) 1] \<noteq> []
   \<and> \<not> vibrantEligible (makeColor (solidColor 128 128 128) 1)
   \<and> bestVibrant (fold (roleStep (makeColor (solidColor 128 128 128) 1)) [makeColor (solidColor 128 128 128) 1] initRoles) = None
   \<and> \<not> isVibrant (makeColor (solidColor 128 128 128) 1)
   \<and> (\<exists>pal. classify [makeColor (solidColor 128 128 128) 1] = Inr pal
          \<and> vibrant pal = Some (makeColor (solidColor 128 128 128) 1))"
proof -
  have "quantizeColors firstPixelRnd (solid 1 128 128 128 255) 1 = Inr [makeColor (solidColor 128 128 128) 1]"
    using quantizeColors_solid[of 1 1 255 firstPixelRnd 128 128 128] by simp
  then have q: "quantizeColors firstPixelRnd [128, 128, 128, 255] 1 = Inr [makeColor (solidColor 128 128 128) 1]"
    by (simp add: solid_def)
  have "s (rgbToHsl (solidColor 128 128 128)) = 0"
    using grey_hsl(1)[of 128] by (simp add: solidColor_def)
  then have ne: "\<not> vibrantEligible (makeColor (solidColor 128 128 128) 1)"
    using fl_3_10_nonneg by (simp add: vibrantEligible_def makeColor_def Let_def)
  have b: "bestVibrant (fold (roleStep (makeColor (solidColor 128 128 128) 1)) [makeColor (solidColor 128 128 128) 1] initRoles) = None"
    using ne by (simp add: roleStep_bestVibrant initRoles_def)
  show ?thesis
    using vibrant_fallback_unreachable[of "[128, 128, 128, 255]" firstPixelRnd 1 "[makeColor (solidColor 128 128 128) 1]"]
      q ne b by simp
qed

end
